theory Spec2Isabelle
  imports Main "HOL-Library.Word" "HOL-Library.AList" "HOL-Library.Extended_Nat"
begin

unbundle bit_operations_syntax

section \<open>LRU-K replacer: the model (lru\_k\_replacer.cpp)\<close>

text \<open>
  \<open>size_t\<close> is a 64-bit unsigned integer: \<open>+\<close> and \<open>-\<close> wrap around, \<open>- 1\<close> is
  \<open>std::numeric_limits<size_t>::max()\<close>. A frame id is the value of the signed
  \<open>frame_id_t\<close>; the sentinel \<open>-1\<close> of \<open>Evict\<close> and the negative ids are values of it.
\<close>

type_synonym size_t = "64 word"

type_synonym frame_id_t = int

text \<open>
  Modelled from the spec: the header that declares \<open>frame_id_t\<close> is not among the sources;
  BusTub declares it as a 32-bit signed integer. \<open>static_cast<frame_id_t>(replacer_size_)\<close>
  keeps the low 32 bits and reads them as two's complement.
\<close>

definition static_cast_frame_id :: "size_t \<Rightarrow> frame_id_t" where
  "static_cast_frame_id n = sint (ucast n :: 32 word)"

record Frame =
  history :: "size_t list"
  k_distance :: size_t
  is_evictable :: bool

text \<open>
  Modelled from the spec: the \<open>Frame\<close> struct is declared in the missing header. A frame
  created by \<open>frames_[frame_id]\<close> has an empty history and \<open>is_evictable = false\<close>
  (``default false on first creation''); its cached distance is overwritten by
  \<open>UpdateKDistance\<close> before it is ever read.
\<close>

definition new_Frame :: Frame where
  "new_Frame = \<lparr>history = [], k_distance = 0, is_evictable = False\<rparr>"

text \<open>
  \<open>frames_\<close> is a map from frame ids to frames. It is an association list with distinct
  keys; the order of the list is the order in which \<open>Evict\<close> iterates over the container.
\<close>

record LRUKReplacer =
  frames :: "(frame_id_t \<times> Frame) list"
  current_timestamp :: size_t
  curr_size :: size_t
  replacer_size :: size_t
  k_value :: size_t

datatype error = InvalidFrameId | NonEvictableRemoval

definition new_LRUKReplacer :: "size_t \<Rightarrow> size_t \<Rightarrow> LRUKReplacer" where
  "new_LRUKReplacer num_frames k =
     \<lparr>frames = [], current_timestamp = 0, curr_size = 0, replacer_size = num_frames, k_value = k\<rparr>"

text \<open>
  \<open>CalcKDistance\<close>: \<open>std::advance(begin, k_ - 1)\<close> moves to the element of index \<open>k_ - 1\<close>.
  The constructor's contract is \<open>k \<ge> 1\<close>; with a history of at least \<open>k\<close> entries the
  index is in range.
\<close>

definition CalcKDistance :: "LRUKReplacer \<Rightarrow> frame_id_t \<Rightarrow> Frame \<Rightarrow> size_t" where
  "CalcKDistance s frame_id frame =
     (if length (history frame) < unat (k_value s) then - 1
      else current_timestamp s - history frame ! unat (k_value s - 1))"

definition UpdateKDistance :: "LRUKReplacer \<Rightarrow> frame_id_t \<Rightarrow> Frame \<Rightarrow> Frame" where
  "UpdateKDistance s frame_id frame = frame\<lparr>k_distance := CalcKDistance s frame_id frame\<rparr>"

text \<open>
  The loop of \<open>Evict\<close> over \<open>frames_\<close>; the accumulator is
  \<open>(victim_id, max_k_distance, earliest_access)\<close>.
\<close>

fun evict_scan ::
  "(frame_id_t \<times> Frame) list \<Rightarrow> frame_id_t \<times> size_t \<times> size_t \<Rightarrow> frame_id_t \<times> size_t \<times> size_t"
where
  "evict_scan [] acc = acc"
| "evict_scan ((fid, frame) # rest) (victim_id, max_k_distance, earliest_access) =
     (if \<not> is_evictable frame then evict_scan rest (victim_id, max_k_distance, earliest_access)
      else if max_k_distance < k_distance frame \<or>
              (k_distance frame = max_k_distance \<and> history frame \<noteq> [] \<and>
               hd (history frame) < earliest_access)
      then evict_scan rest
             (fid, k_distance frame,
              if history frame \<noteq> [] then hd (history frame) else earliest_access)
      else evict_scan rest (victim_id, max_k_distance, earliest_access))"

definition Evict :: "LRUKReplacer \<Rightarrow> frame_id_t option \<times> LRUKReplacer" where
  "Evict s =
     (if curr_size s = 0 then (None, s)
      else
        (case evict_scan (frames s) (- 1, 0, current_timestamp s) of
           (victim_id, max_k_distance, earliest_access) \<Rightarrow>
             if victim_id \<noteq> - 1
             then (Some victim_id,
                   s\<lparr>frames := AList.delete victim_id (frames s), curr_size := curr_size s - 1\<rparr>)
             else (None, s)))"

text \<open>
  \<open>RecordAccess\<close>, \<open>SetEvictable\<close> and \<open>Remove\<close> return the exception they throw, if any,
  together with the state the replacer is left in.
\<close>

definition RecordAccess :: "frame_id_t \<Rightarrow> LRUKReplacer \<Rightarrow> error option \<times> LRUKReplacer" where
  "RecordAccess frame_id s =
     (if static_cast_frame_id (replacer_size s) \<le> frame_id then (Some InvalidFrameId, s)
      else
        let frame = (case map_of (frames s) frame_id of None \<Rightarrow> new_Frame | Some f \<Rightarrow> f);
            pushed = history frame @ [current_timestamp s];
            capped = (if unat (k_value s) < length pushed then tl pushed else pushed);
            frame' = UpdateKDistance s frame_id (frame\<lparr>history := capped\<rparr>)
        in (None, s\<lparr>frames := AList.update frame_id frame' (frames s),
                     current_timestamp := current_timestamp s + 1\<rparr>))"

definition SetEvictable :: "frame_id_t \<Rightarrow> bool \<Rightarrow> LRUKReplacer \<Rightarrow> error option \<times> LRUKReplacer" where
  "SetEvictable frame_id set_evictable s =
     (if static_cast_frame_id (replacer_size s) \<le> frame_id then (Some InvalidFrameId, s)
      else
        (case map_of (frames s) frame_id of
           None \<Rightarrow> (None, s)
         | Some frame \<Rightarrow>
             if is_evictable frame \<noteq> set_evictable
             then (None, s\<lparr>frames := AList.update frame_id (frame\<lparr>is_evictable := set_evictable\<rparr>) (frames s),
                          curr_size := curr_size s + (if set_evictable then 1 else - 1)\<rparr>)
             else (None, s)))"

definition Remove :: "frame_id_t \<Rightarrow> LRUKReplacer \<Rightarrow> error option \<times> LRUKReplacer" where
  "Remove frame_id s =
     (case map_of (frames s) frame_id of
        None \<Rightarrow> (None, s)
      | Some frame \<Rightarrow>
          if \<not> is_evictable frame then (Some NonEvictableRemoval, s)
          else (None, s\<lparr>frames := AList.delete frame_id (frames s), curr_size := curr_size s - 1\<rparr>))"

definition Size :: "LRUKReplacer \<Rightarrow> size_t" where
  "Size s = curr_size s"

text \<open>
  What every stored frame satisfies: \<open>RecordAccess\<close> creates a frame only to push a
  timestamp on it, keeps at most \<open>k\<close> timestamps, all older than the clock, and leaves in
  the cache either the maximum (fewer than \<open>k\<close> accesses) or the difference between the
  clock and the element it has just pushed.
\<close>

definition frame_ok :: "LRUKReplacer \<Rightarrow> Frame \<Rightarrow> bool" where
  "frame_ok s fr \<longleftrightarrow>
     history fr \<noteq> [] \<and> length (history fr) \<le> unat (k_value s) \<and>
     (\<forall>t \<in> set (history fr). t < current_timestamp s) \<and>
     k_distance fr = (if length (history fr) < unat (k_value s) then - 1 else 0)"

definition num_evictable :: "(frame_id_t \<times> Frame) list \<Rightarrow> nat" where
  "num_evictable fs = length (filter (\<lambda>p. is_evictable (snd p)) fs)"

definition lruk_inv :: "LRUKReplacer \<Rightarrow> bool" where
  "lruk_inv s \<longleftrightarrow>
     k_value s \<noteq> 0 \<and> distinct (map fst (frames s)) \<and>
     (\<forall>p \<in> set (frames s). frame_ok s (snd p)) \<and>
     length (frames s) \<le> unat (current_timestamp s) \<and>
     unat (curr_size s) = num_evictable (frames s)"

definition scan_best :: "Frame \<Rightarrow> Frame \<Rightarrow> bool" where
  "scan_best fr fr' \<longleftrightarrow>
     k_distance fr' \<le> k_distance fr \<and>
     (k_distance fr' = k_distance fr \<longrightarrow> hd (history fr) \<le> hd (history fr'))"

definition scan_acc ::
  "size_t \<Rightarrow> (frame_id_t \<times> Frame) list \<Rightarrow> frame_id_t \<times> size_t \<times> size_t \<Rightarrow> bool" where
  "scan_acc ct seen acc \<longleftrightarrow>
     (case acc of (v, m, e) \<Rightarrow>
        ((\<forall>p \<in> set seen. \<not> is_evictable (snd p)) \<and> v = - 1 \<and> m = 0 \<and> e = ct) \<or>
        (\<exists>fr. (v, fr) \<in> set seen \<and> is_evictable fr \<and> m = k_distance fr \<and>
               e = hd (history fr) \<and>
               (\<forall>p \<in> set seen. is_evictable (snd p) \<longrightarrow> scan_best fr (snd p))))"

text \<open>
  The states a replacer goes through: built by the constructor with \<open>k \<ge> 1\<close>, then changed by
  the four operations (a call that throws leaves the state it returns). \<open>RecordAccess\<close> is
  taken while the 64-bit clock \<open>current_timestamp_\<close> has not reached its maximum, that is
  for fewer than \<open>2^64\<close> recorded accesses. The last rule lets the container enumerate
  its entries in any order: nothing below depends on the order of \<open>frames\<close>.
\<close>

inductive reachable :: "LRUKReplacer \<Rightarrow> bool" where
  reach_new: "k \<noteq> 0 \<Longrightarrow> reachable (new_LRUKReplacer num_frames k)"
| reach_RecordAccess:
    "reachable s \<Longrightarrow> current_timestamp s \<noteq> - 1 \<Longrightarrow> reachable (snd (RecordAccess frame_id s))"
| reach_SetEvictable: "reachable s \<Longrightarrow> reachable (snd (SetEvictable frame_id set_evictable s))"
| reach_Remove: "reachable s \<Longrightarrow> reachable (snd (Remove frame_id s))"
| reach_Evict: "reachable s \<Longrightarrow> reachable (snd (Evict s))"
| reach_reorder:
    "reachable s \<Longrightarrow> set fs = set (frames s) \<Longrightarrow> distinct (map fst fs) \<Longrightarrow>
     reachable (s\<lparr>frames := fs\<rparr>)"

text \<open>
  The backward k-distance in the words of the specification: for the timestamps
  \<open>t\<^sub>1 < \<dots> < t\<^sub>m\<close> of a frame, \<open>+\<infinity>\<close> if \<open>m < k\<close>, else \<open>current_timestamp - t\<^sub>m\<^sub>-\<^sub>k\<^sub>+\<^sub>1\<close>
  (the list is indexed from 0, so \<open>t\<^sub>m\<^sub>-\<^sub>k\<^sub>+\<^sub>1\<close> is the element \<open>m - k\<close>). It is evaluated on
  the state in which \<open>Evict\<close> is called.
\<close>

definition backward_k_distance :: "LRUKReplacer \<Rightarrow> Frame \<Rightarrow> enat" where
  "backward_k_distance s frame =
     (let m = length (history frame); k = unat (k_value s) in
      if m < k then \<infinity>
      else enat (unat (current_timestamp s) - unat (history frame ! (m - k))))"

text \<open>Scenario S5 of the specification: \<open>k = 2\<close>, accesses to 1, 2, 3, 4, all set evictable.\<close>

definition scenario_S5 :: LRUKReplacer where
  "scenario_S5 =
     fold (\<lambda>call s. snd (call s))
       [RecordAccess 1, RecordAccess 2, RecordAccess 3, RecordAccess 4,
        SetEvictable 1 True, SetEvictable 2 True, SetEvictable 3 True, SetEvictable 4 True]
       (new_LRUKReplacer 7 2)"

text \<open>
  The state after \<open>RecordAccess(-1)\<close> and \<open>SetEvictable(-1, true)\<close> on a fresh replacer of
  capacity 7 with \<open>k = 2\<close>.
\<close>

definition scenario_sentinel :: LRUKReplacer where
  "scenario_sentinel = snd (SetEvictable (- 1) True (snd (RecordAccess (- 1) (new_LRUKReplacer 7 2))))"

section \<open>Extendible hash table: the model (extendible\_hash\_table.cpp)\<close>

text \<open>
  A bucket: its capacity \<open>size_\<close>, its local depth \<open>depth_\<close> and its list of pairs \<open>list_\<close>
  (oldest first; \<open>emplace_back\<close> appends). Depths and counts only grow from 0 and are
  natural numbers; the one place where the \<open>int\<close> arithmetic of the source can overflow is
  written out in \<open>split_bucket\<close>.
\<close>

record ('k, 'v) Bucket =
  array_size :: nat
  depth :: nat
  items :: "('k \<times> 'v) list"

text \<open>\<open>Bucket(array_size, depth)\<close>: an empty bucket.\<close>

definition new_Bucket :: "nat \<Rightarrow> nat \<Rightarrow> ('k, 'v) Bucket" where
  "new_Bucket size_arg depth_arg = \<lparr>array_size = size_arg, depth = depth_arg, items = []\<rparr>"

text \<open>
  Modelled from the spec: \<open>IsFull\<close>, \<open>GetDepth\<close>, \<open>IncrementDepth\<close> and \<open>GetItems\<close> are defined
  in the header, which is not among the sources. A bucket holds up to \<open>bucket_size\<close> pairs,
  and it is full when it holds that many.
\<close>

definition IsFull :: "('k, 'v) Bucket \<Rightarrow> bool" where
  "IsFull b \<longleftrightarrow> length (items b) = array_size b"

text \<open>\<open>Bucket::Find\<close>: the value of the first pair with the key, if there is one.\<close>

definition Bucket_Find :: "'k \<Rightarrow> ('k, 'v) Bucket \<Rightarrow> 'v option" where
  "Bucket_Find key b = map_of (items b) key"

text \<open>
  \<open>Bucket::Remove\<close>: \<open>list_.remove(pair)\<close> for the first pair with the key; it erases every
  element equal to that pair.
\<close>

definition Bucket_Remove :: "'k \<Rightarrow> ('k, 'v) Bucket \<Rightarrow> bool \<times> ('k, 'v) Bucket" where
  "Bucket_Remove key b =
     (case map_of (items b) key of
        None \<Rightarrow> (False, b)
      | Some v \<Rightarrow> (True, b\<lparr>items := removeAll (key, v) (items b)\<rparr>))"

text \<open>\<open>Bucket::Insert\<close>: refuses when the bucket is full, else appends the pair.\<close>

definition Bucket_Insert :: "'k \<Rightarrow> 'v \<Rightarrow> ('k, 'v) Bucket \<Rightarrow> bool \<times> ('k, 'v) Bucket" where
  "Bucket_Insert key val b =
     (if IsFull b then (False, b) else (True, b\<lparr>items := items b @ [(key, val)]\<rparr>))"

text \<open>
  The table. The directory \<open>dir_\<close> holds shared pointers, and several slots may point to
  the same bucket, which the operations change in place: \<open>heap\<close> is the store of the
  buckets allocated so far, a pointer is a position in it, \<open>make_shared\<close> appends to it and
  pointer equality is equality of positions. A bucket that no slot points to any more
  stays in the store; no operation reads it.
\<close>

record ('k, 'v) ExtendibleHashTable =
  global_depth :: nat
  bucket_size :: nat
  num_buckets :: nat
  dir :: "nat list"
  heap :: "('k, 'v) Bucket list"

text \<open>
  Modelled from the spec: the constructor sets \<open>bucket_size_\<close> and pushes one bucket of depth
  0; the initial values of \<open>global_depth_\<close> (0) and \<open>num_buckets_\<close> (1) are given in the header,
  which is not among the sources.
\<close>

definition new_ExtendibleHashTable :: "nat \<Rightarrow> ('k, 'v) ExtendibleHashTable" where
  "new_ExtendibleHashTable bucket_size_arg =
     \<lparr>global_depth = 0, bucket_size = bucket_size_arg, num_buckets = 1, dir = [0],
      heap = [new_Bucket bucket_size_arg 0]\<rparr>"

text \<open>
  \<open>IndexOf\<close>: the hash of the key masked with \<open>(1 << global_depth_) - 1\<close>. The hash function
  \<open>std::hash<K>\<close> is a parameter; only the value of the hash as a natural number matters.
  The shift stays within \<open>int\<close> as long as the global depth is at most 30, which holds in
  every state the operations produce (see \<open>split_bucket\<close>).
\<close>

definition IndexOf :: "('k \<Rightarrow> nat) \<Rightarrow> ('k, 'v) ExtendibleHashTable \<Rightarrow> 'k \<Rightarrow> nat" where
  "IndexOf hash ht key = (let bit_mask = 2 ^ global_depth ht - 1 in hash key AND bit_mask)"

text \<open>\<open>dir_[dir_index]\<close> dereferenced.\<close>

definition bucket_at :: "('k, 'v) ExtendibleHashTable \<Rightarrow> nat \<Rightarrow> ('k, 'v) Bucket" where
  "bucket_at ht dir_index = heap ht ! (dir ht ! dir_index)"

definition GetGlobalDepth :: "('k, 'v) ExtendibleHashTable \<Rightarrow> nat" where
  "GetGlobalDepth ht = global_depth ht"

definition GetLocalDepth :: "('k, 'v) ExtendibleHashTable \<Rightarrow> nat \<Rightarrow> nat" where
  "GetLocalDepth ht dir_index = depth (bucket_at ht dir_index)"

definition GetNumBuckets :: "('k, 'v) ExtendibleHashTable \<Rightarrow> nat" where
  "GetNumBuckets ht = num_buckets ht"

text \<open>\<open>Find\<close>: \<open>Some value\<close> is \<open>true\<close> with the value written to the out parameter.\<close>

definition Find :: "('k \<Rightarrow> nat) \<Rightarrow> 'k \<Rightarrow> ('k, 'v) ExtendibleHashTable \<Rightarrow> 'v option" where
  "Find hash key ht = Bucket_Find key (bucket_at ht (IndexOf hash ht key))"

text \<open>
  \<open>ExtendibleHashTable::Remove\<close> (the name \<open>Remove\<close> is the replacer's here): the flag it
  returns and the table it leaves.
\<close>

definition Remove_key ::
  "('k \<Rightarrow> nat) \<Rightarrow> 'k \<Rightarrow> ('k, 'v) ExtendibleHashTable \<Rightarrow> bool \<times> ('k, 'v) ExtendibleHashTable" where
  "Remove_key hash key ht =
     (let bucket = dir ht ! IndexOf hash ht key;
          (removed, b') = Bucket_Remove key (heap ht ! bucket)
      in (removed, ht\<lparr>heap := (heap ht)[bucket := b']\<rparr>))"

text \<open>
  The loop that moves the items of the bucket being split into the two new buckets, by
  the bit \<open>mask\<close> of their hash.
\<close>

definition redistribute ::
  "('k \<Rightarrow> nat) \<Rightarrow> nat \<Rightarrow> ('k \<times> 'v) list \<Rightarrow> ('k, 'v) Bucket \<times> ('k, 'v) Bucket \<Rightarrow>
   ('k, 'v) Bucket \<times> ('k, 'v) Bucket" where
  "redistribute hash bit_mask its =
     fold (\<lambda>item (new_bucket1, new_bucket2).
             if hash (fst item) AND bit_mask = 0
             then (snd (Bucket_Insert (fst item) (snd item) new_bucket1), new_bucket2)
             else (new_bucket1, snd (Bucket_Insert (fst item) (snd item) new_bucket2))) its"

text \<open>
  One iteration of the \<open>while\<close> loop of \<open>Insert\<close>. When the local depth equals the global
  depth the directory is doubled: \<open>int dir_num = dir_.size(); dir_.resize(dir_num * 2)\<close>.
  \<open>dir_num * 2\<close> overflows \<open>int\<close> from \<open>2^30\<close> slots on; the behaviour is then undefined and
  the call is taken not to return (\<open>None\<close>). The old bucket keeps its place in the store
  with its depth incremented; the two new buckets are allocated after it, and every slot
  that pointed to the old bucket is redirected by the bit \<open>mask\<close> of its index.
\<close>

definition split_bucket ::
  "('k \<Rightarrow> nat) \<Rightarrow> 'k \<Rightarrow> ('k, 'v) ExtendibleHashTable \<Rightarrow> ('k, 'v) ExtendibleHashTable option" where
  "split_bucket hash key ht =
     (let index = IndexOf hash ht key;
          bucket = dir ht ! index;
          d = depth (heap ht ! bucket)
      in if d = global_depth ht \<and> 2 ^ 31 \<le> 2 * length (dir ht) then None
         else
           let grown = (if d = global_depth ht
                        then ht\<lparr>global_depth := global_depth ht + 1, dir := dir ht @ dir ht\<rparr>
                        else ht);
               bit_mask = 2 ^ d;
               heap1 = (heap grown)[bucket := (heap grown ! bucket)\<lparr>depth := d + 1\<rparr>];
               new_bucket1 = length heap1;
               new_bucket2 = length heap1 + 1;
               (b1, b2) = redistribute hash bit_mask (items (heap1 ! bucket))
                            (new_Bucket (bucket_size grown) (d + 1), new_Bucket (bucket_size grown) (d + 1));
               dir' = map (\<lambda>i. if dir grown ! i = bucket
                                then (if i AND bit_mask = 0 then new_bucket1 else new_bucket2)
                                else dir grown ! i) [0..<length (dir grown)]
           in Some (grown\<lparr>heap := heap1 @ [b1, b2], dir := dir',
                           num_buckets := num_buckets grown + 1\<rparr>))"

text \<open>
  The \<open>while (dir_[IndexOf(key)]->IsFull())\<close> loop. It need not terminate: \<open>None\<close> is a
  loop that runs forever or leaves through the overflow above.
\<close>

partial_function (option) split_while ::
  "('k \<Rightarrow> nat) \<Rightarrow> 'k \<Rightarrow> ('k, 'v) ExtendibleHashTable \<Rightarrow> ('k, 'v) ExtendibleHashTable option"
where
  "split_while hash key ht =
     (if IsFull (bucket_at ht (IndexOf hash ht key))
      then Option.bind (split_bucket hash key ht) (split_while hash key)
      else Some ht)"

text \<open>The loop equation is the code equation of \<open>split_while\<close>.\<close>

declare split_while.simps [code]

text \<open>
  The end of \<open>Insert\<close>: the value of the first pair with the key is overwritten, or else
  the pair is handed to \<open>Bucket::Insert\<close>, whose result is ignored.
\<close>

definition upsert ::
  "('k \<Rightarrow> nat) \<Rightarrow> 'k \<Rightarrow> 'v \<Rightarrow> ('k, 'v) ExtendibleHashTable \<Rightarrow> ('k, 'v) ExtendibleHashTable" where
  "upsert hash key val ht =
     (let bucket = dir ht ! IndexOf hash ht key;
          b = heap ht ! bucket;
          b' = (if map_of (items b) key \<noteq> None
                then b\<lparr>items := AList.update key val (items b)\<rparr>
                else snd (Bucket_Insert key val b))
      in ht\<lparr>heap := (heap ht)[bucket := b']\<rparr>)"

text \<open>\<open>Insert\<close>: the split loop, then the update or insertion in the target bucket.\<close>

definition Insert ::
  "('k \<Rightarrow> nat) \<Rightarrow> 'k \<Rightarrow> 'v \<Rightarrow> ('k, 'v) ExtendibleHashTable \<Rightarrow> ('k, 'v) ExtendibleHashTable option" where
  "Insert hash key val ht = map_option (upsert hash key val) (split_while hash key ht)"

text \<open>
  The invariant of the table. For every directory slot \<open>i\<close>: the pointer is allocated, the
  local depth is at most the global depth, the capacity is \<open>bucket_size_\<close>, the slots
  sharing the bucket agree with \<open>i\<close> on the low local-depth bits, and so do the hashes of
  the keys in the bucket. The directory has \<open>2 ^ global_depth\<close> slots, at most \<open>2^30\<close>.
\<close>

definition ht_inv :: "('k \<Rightarrow> nat) \<Rightarrow> ('k, 'v) ExtendibleHashTable \<Rightarrow> bool" where
  "ht_inv hash ht \<longleftrightarrow>
     length (dir ht) = 2 ^ global_depth ht \<and> global_depth ht \<le> 30 \<and>
     (\<forall>i < length (dir ht).
        dir ht ! i < length (heap ht) \<and>
        depth (bucket_at ht i) \<le> global_depth ht \<and>
        array_size (bucket_at ht i) = bucket_size ht \<and>
        (\<forall>j < length (dir ht). dir ht ! j = dir ht ! i \<longrightarrow>
           j mod 2 ^ depth (bucket_at ht i) = i mod 2 ^ depth (bucket_at ht i)) \<and>
        (\<forall>k \<in> fst ` set (items (bucket_at ht i)).
           hash k mod 2 ^ depth (bucket_at ht i) = i mod 2 ^ depth (bucket_at ht i)))"

text \<open>
  The tables reachable from the constructor by calls of \<open>Insert\<close> that return and calls of
  \<open>Remove\<close> (\<open>Find\<close> changes nothing), for a fixed hash function.
\<close>

inductive ht_reachable :: "('k \<Rightarrow> nat) \<Rightarrow> ('k, 'v) ExtendibleHashTable \<Rightarrow> bool"
  for hash :: "'k \<Rightarrow> nat" where
  ht_new: "ht_reachable hash (new_ExtendibleHashTable bucket_size_arg)"
| ht_Insert: "ht_reachable hash ht \<Longrightarrow> Insert hash key val ht = Some ht' \<Longrightarrow> ht_reachable hash ht'"
| ht_Remove: "ht_reachable hash ht \<Longrightarrow> ht_reachable hash (snd (Remove_key hash key ht))"

text \<open>The keys of \<open>K\<close> have hashes that agree on the low \<open>m\<close> bits.\<close>

definition agree_on_low_bits :: "('k \<Rightarrow> nat) \<Rightarrow> nat \<Rightarrow> 'k set \<Rightarrow> bool" where
  "agree_on_low_bits hash m K \<longleftrightarrow> (\<forall>x \<in> K. \<forall>y \<in> K. hash x mod 2 ^ m = hash y mod 2 ^ m)"

text \<open>A sequence of insertions, each of which has to return.\<close>

fun insert_all ::
  "('k \<Rightarrow> nat) \<Rightarrow> ('k \<times> 'v) list \<Rightarrow> ('k, 'v) ExtendibleHashTable \<Rightarrow>
   ('k, 'v) ExtendibleHashTable option" where
  "insert_all hash [] ht = Some ht"
| "insert_all hash ((key, val) # rest) ht = Option.bind (Insert hash key val ht) (insert_all hash rest)"

text \<open>
  Two tables for the examples, with keys hashed to themselves: capacity 2 after inserting
  1 and 2 (one full bucket), and then 3 (scenario S1 of the specification).
\<close>

definition table_12 :: "(nat, string) ExtendibleHashTable" where
  "table_12 = the (insert_all (\<lambda>k. k) [(1, ''a''), (2, ''b'')] (new_ExtendibleHashTable 2))"

definition table_123 :: "(nat, string) ExtendibleHashTable" where
  "table_123 = the (Insert (\<lambda>k. k) 3 ''c'' table_12)"

section \<open>LRU-K replacer: invariant and claims\<close>

lemma word64_less_succ: "(c :: size_t) \<noteq> - 1 \<Longrightarrow> t \<le> c \<Longrightarrow> t < c + 1"
  using inc_less_eq_iff by fastforce

lemma unat_succ64: "(c :: size_t) \<noteq> - 1 \<Longrightarrow> unat (c + 1) = Suc (unat c)"
  by (simp add: add.commute add_eq_0_iff unatSuc)

lemma unat_pred64: "(c :: size_t) \<noteq> 0 \<Longrightarrow> unat (c - 1) = unat c - 1"
  by (simp add: unat_minus_one)

lemma num_evictable_update:
  "distinct (map fst al) \<Longrightarrow> map_of al k = Some old \<Longrightarrow>
   num_evictable (AList.update k v al) + (if is_evictable old then 1 else 0) =
   num_evictable al + (if is_evictable v then 1 else 0)"
  unfolding num_evictable_def
  by (induction al) (auto split: if_splits)

lemma num_evictable_update_new:
  "map_of al k = None \<Longrightarrow>
   num_evictable (AList.update k v al) = num_evictable al + (if is_evictable v then 1 else 0)"
  unfolding num_evictable_def
  by (induction al) (auto split: if_splits)

lemma num_evictable_delete:
  "distinct (map fst al) \<Longrightarrow> map_of al k = Some old \<Longrightarrow>
   num_evictable (AList.delete k al) + (if is_evictable old then 1 else 0) = num_evictable al"
  unfolding num_evictable_def
  by (induction al) (auto split: if_splits)

lemma num_evictable_le: "num_evictable fs \<le> length fs"
  by (simp add: num_evictable_def)

lemma set_update_subset: "set (AList.update k v al) \<subseteq> insert (k, v) (set al)"
  by (induction al) auto

lemma set_delete_subset: "set (AList.delete k al) \<subseteq> set al"
  by (auto simp: AList.delete_eq)

lemma length_update_le: "length (AList.update k v al) \<le> Suc (length al)"
  by (induction al) auto

lemma length_update_mem: "map_of al k = Some old \<Longrightarrow> length (AList.update k v al) = length al"
  by (induction al) (auto split: if_splits)

lemma length_delete_le: "length (AList.delete k al) \<le> length al"
  by (auto simp: AList.delete_eq)

lemma frame_ok_mono:
  "frame_ok s fr \<Longrightarrow> k_value s' = k_value s \<Longrightarrow> current_timestamp s \<le> current_timestamp s' \<Longrightarrow> frame_ok s' fr"
  unfolding frame_ok_def by auto

lemma all_snd_update:
  "\<forall>p \<in> set al. Q (snd p) \<Longrightarrow> Q v \<Longrightarrow> \<forall>p \<in> set (AList.update k v al). Q (snd p)"
  using set_update_subset[of k v al] by fastforce

lemma capped_history:
  assumes "length h \<le> n" and "0 < n"
    and "c = (if n < length (h @ [t]) then tl (h @ [t]) else h @ [t])"
  shows "c \<noteq> []" and "length c \<le> n" and "set c \<subseteq> insert t (set h)"
    and "\<not> length c < n \<Longrightarrow> c ! (n - 1) = t"
  using assms by (cases h; auto simp: nth_append; fail)+

lemma lruk_inv_RecordAccess:
  assumes "lruk_inv s" and "current_timestamp s \<noteq> - 1"
  shows "lruk_inv (snd (RecordAccess frame_id s))"
proof (cases "static_cast_frame_id (replacer_size s) \<le> frame_id")
  case True
  then show ?thesis using assms by (simp add: RecordAccess_def)
next
  case False
  define frame where "frame = (case map_of (frames s) frame_id of None \<Rightarrow> new_Frame | Some f \<Rightarrow> f)"
  define capped where "capped = (if unat (k_value s) < length (history frame @ [current_timestamp s])
     then tl (history frame @ [current_timestamp s]) else history frame @ [current_timestamp s])"
  define frame' where "frame' = UpdateKDistance s frame_id (frame\<lparr>history := capped\<rparr>)"
  define s' where "s' = s\<lparr>frames := AList.update frame_id frame' (frames s),
                     current_timestamp := current_timestamp s + 1\<rparr>"
  have res: "snd (RecordAccess frame_id s) = s'"
    using False by (simp add: RecordAccess_def Let_def s'_def frame'_def capped_def frame_def)
  have k0: "k_value s \<noteq> 0" and dist: "distinct (map fst (frames s))"
    and oks: "\<forall>p \<in> set (frames s). frame_ok s (snd p)"
    and len: "length (frames s) \<le> unat (current_timestamp s)"
    and cnt: "unat (curr_size s) = num_evictable (frames s)"
    using assms(1) by (auto simp: lruk_inv_def)
  have kpos: "0 < unat (k_value s)" using k0 by (simp add: unat_gt_0)
  have hist_len: "length (history frame) \<le> unat (k_value s)"
    and hist_lt: "\<forall>t \<in> set (history frame). t < current_timestamp s"
    using oks by (auto simp: frame_def new_Frame_def frame_ok_def split: option.splits dest!: map_of_SomeD)
  note cap = capped_history[OF hist_len kpos capped_def]
  have km1: "unat (k_value s - 1) = unat (k_value s) - 1"
    using k0 by (rule unat_pred64)
  have lt': "t < current_timestamp s + 1" if "t \<le> current_timestamp s" for t
    using assms(2) that by (rule word64_less_succ)
  have "t \<le> current_timestamp s" if "t \<in> set capped" for t
    using that cap(3) hist_lt by (auto intro: less_imp_le)
  then have capped_lt: "\<forall>t \<in> set capped. t < current_timestamp s + 1"
    using lt' by blast
  have ok': "frame_ok s' frame'"
    unfolding frame_ok_def using cap(1,2,4) capped_lt km1
    by (simp add: frame'_def s'_def UpdateKDistance_def CalcKDistance_def)
  have "current_timestamp s \<le> current_timestamp s'"
    using lt'[of "current_timestamp s"] by (simp add: s'_def less_imp_le)
  then have "\<forall>p \<in> set (frames s). frame_ok s' (snd p)"
    using oks by (auto intro: frame_ok_mono simp: s'_def)
  then have oks': "\<forall>p \<in> set (frames s'). frame_ok s' (snd p)"
    using ok' by (simp add: s'_def all_snd_update)
  have ev: "is_evictable frame' = is_evictable frame"
    by (simp add: frame'_def UpdateKDistance_def)
  have cnt': "num_evictable (frames s') = num_evictable (frames s)"
  proof (cases "map_of (frames s) frame_id")
    case None
    then have "\<not> is_evictable frame'" by (simp add: ev frame_def new_Frame_def)
    then show ?thesis using None by (simp add: s'_def num_evictable_update_new)
  next
    case (Some old)
    then have "frame = old" by (simp add: frame_def)
    then show ?thesis
      using num_evictable_update[OF dist Some, of frame'] ev by (simp add: s'_def)
  qed
  have len': "length (frames s') \<le> unat (current_timestamp s')"
    using len length_update_le[of frame_id frame' "frames s"] unat_succ64[OF assms(2)]
    by (simp add: s'_def)
  show ?thesis
    unfolding res lruk_inv_def using k0 dist oks' len' cnt cnt'
    by (simp add: s'_def distinct_update)
qed

lemma lruk_inv_SetEvictable:
  assumes "lruk_inv s"
  shows "lruk_inv (snd (SetEvictable frame_id set_evictable s))"
proof (cases "map_of (frames s) frame_id")
  case None
  then show ?thesis using assms by (simp add: SetEvictable_def)
next
  case (Some frame)
  have k0: "k_value s \<noteq> 0" and dist: "distinct (map fst (frames s))"
    and oks: "\<forall>p \<in> set (frames s). frame_ok s (snd p)"
    and len: "length (frames s) \<le> unat (current_timestamp s)"
    and cnt: "unat (curr_size s) = num_evictable (frames s)"
    using assms(1) by (auto simp: lruk_inv_def)
  define frame' where "frame' = frame\<lparr>is_evictable := set_evictable\<rparr>"
  define s' where "s' = s\<lparr>frames := AList.update frame_id frame' (frames s),
                          curr_size := curr_size s + (if set_evictable then 1 else - 1)\<rparr>"
  show ?thesis
  proof (cases "static_cast_frame_id (replacer_size s) \<le> frame_id \<or> is_evictable frame = set_evictable")
    case True
    then show ?thesis using assms Some by (auto simp: SetEvictable_def)
  next
    case False
    then have res: "snd (SetEvictable frame_id set_evictable s) = s'"
      using Some by (simp add: SetEvictable_def s'_def frame'_def)
    have mem: "(frame_id, frame) \<in> set (frames s)" using Some by (rule map_of_SomeD)
    then have "frame_ok s frame" using oks by auto
    then have ok': "frame_ok s' frame'" by (simp add: frame_ok_def frame'_def s'_def)
    have "\<forall>p \<in> set (frames s). frame_ok s' (snd p)"
      using oks by (auto intro: frame_ok_mono simp: s'_def)
    then have oks': "\<forall>p \<in> set (frames s'). frame_ok s' (snd p)"
      using ok' by (simp add: s'_def all_snd_update)
    have upd: "num_evictable (frames s') + (if is_evictable frame then 1 else 0) =
               num_evictable (frames s) + (if set_evictable then 1 else 0)"
      using num_evictable_update[OF dist Some, of frame'] by (simp add: s'_def frame'_def)
    have bound: "num_evictable (frames s') \<le> unat (current_timestamp s)"
      using num_evictable_le[of "frames s'"] length_update_mem[OF Some, of frame'] len
      by (simp add: s'_def)
    have cnt': "unat (curr_size s') = num_evictable (frames s')"
    proof (cases set_evictable)
      case True
      then have "num_evictable (frames s') = Suc (num_evictable (frames s))"
        using upd False by simp
      moreover from this have "unat (curr_size s) < unat (current_timestamp s)"
        using bound cnt by simp
      then have "curr_size s \<noteq> - 1"
        using word_less_nat_alt[of "curr_size s" "current_timestamp s"] by auto
      ultimately show ?thesis using True cnt by (simp add: s'_def unat_succ64)
    next
      case False
      with \<open>\<not> (_ \<or> _)\<close> have ev: "is_evictable frame" by simp
      then have "Suc (num_evictable (frames s')) = num_evictable (frames s)"
        using upd False by simp
      moreover from this have "curr_size s \<noteq> 0" using cnt by (auto simp: unat_eq_0)
      ultimately show ?thesis using False cnt
        by (simp add: s'_def unat_pred64)
    qed
    show ?thesis
      unfolding res lruk_inv_def using k0 dist oks' len cnt' length_update_mem[OF Some, of frame']
      by (simp add: s'_def distinct_update)
  qed
qed

lemma lruk_inv_delete:
  assumes "lruk_inv s" and "map_of (frames s) frame_id = Some frame" and "is_evictable frame"
  shows "lruk_inv (s\<lparr>frames := AList.delete frame_id (frames s), curr_size := curr_size s - 1\<rparr>)"
proof -
  have k0: "k_value s \<noteq> 0" and dist: "distinct (map fst (frames s))"
    and oks: "\<forall>p \<in> set (frames s). frame_ok s (snd p)"
    and len: "length (frames s) \<le> unat (current_timestamp s)"
    and cnt: "unat (curr_size s) = num_evictable (frames s)"
    using assms(1) by (auto simp: lruk_inv_def)
  have del: "Suc (num_evictable (AList.delete frame_id (frames s))) = num_evictable (frames s)"
    using num_evictable_delete[OF dist assms(2)] assms(3) by simp
  then have "curr_size s \<noteq> 0" using cnt by auto
  then have "unat (curr_size s - 1) = num_evictable (AList.delete frame_id (frames s))"
    using del cnt by (simp add: unat_pred64)
  moreover have "\<forall>p \<in> set (AList.delete frame_id (frames s)). frame_ok s (snd p)"
    using oks set_delete_subset[of frame_id "frames s"] by blast
  moreover have "\<forall>p \<in> set (AList.delete frame_id (frames s)).
      frame_ok (s\<lparr>frames := AList.delete frame_id (frames s), curr_size := curr_size s - 1\<rparr>) (snd p)"
    using calculation(2) by (auto intro: frame_ok_mono)
  ultimately show ?thesis
    unfolding lruk_inv_def using k0 dist len length_delete_le[of frame_id "frames s"]
    by (simp add: distinct_delete)
qed

lemma lruk_inv_Remove:
  assumes "lruk_inv s"
  shows "lruk_inv (snd (Remove frame_id s))"
  using assms lruk_inv_delete[OF assms]
  by (auto simp: Remove_def split: option.splits)

lemma scan_acc_step:
  assumes "scan_acc ct seen (v, m, e)" and "history frame \<noteq> []" and "hd (history frame) < ct"
  shows "scan_acc ct (seen @ [(fid, frame)]) (evict_scan [(fid, frame)] (v, m, e))"
proof (cases "\<forall>p \<in> set seen. \<not> is_evictable (snd p)")
  case True
  then have acc: "v = - 1" "m = 0" "e = ct" using assms(1) by (auto simp: scan_acc_def)
  show ?thesis
  proof (cases "is_evictable frame")
    case False
    then show ?thesis using True acc by (simp add: scan_acc_def)
  next
    case ev: True
    have "evict_scan [(fid, frame)] (v, m, e) = (fid, k_distance frame, hd (history frame))"
      using ev assms(2,3) acc by (auto simp: word_gt_0)
    then show ?thesis using ev True by (auto simp: scan_acc_def scan_best_def)
  qed
next
  case False
  then obtain fr where fr: "(v, fr) \<in> set seen" "is_evictable fr" "m = k_distance fr"
      "e = hd (history fr)" "\<forall>p \<in> set seen. is_evictable (snd p) \<longrightarrow> scan_best fr (snd p)"
    using assms(1) by (auto simp: scan_acc_def)
  show ?thesis
  proof (cases "is_evictable frame \<and>
      (m < k_distance frame \<or> (k_distance frame = m \<and> hd (history frame) < e))")
    case True
    then have res: "evict_scan [(fid, frame)] (v, m, e) = (fid, k_distance frame, hd (history frame))"
      using assms(2) by auto
    have "scan_best frame (snd p)" if "p \<in> set seen" "is_evictable (snd p)" for p
      using fr(5) that True fr(3,4) unfolding scan_best_def by fastforce
    moreover have "scan_best frame frame" by (simp add: scan_best_def)
    ultimately have "\<forall>p \<in> set (seen @ [(fid, frame)]). is_evictable (snd p) \<longrightarrow> scan_best frame (snd p)"
      by auto
    then show ?thesis using True unfolding res scan_acc_def
      by (simp only: split) (rule disjI2, rule exI[of _ frame], simp)
  next
    case False
    then have res: "evict_scan [(fid, frame)] (v, m, e) = (v, m, e)"
      using assms(2) by auto
    have "is_evictable frame \<longrightarrow> scan_best fr frame"
      using False fr(3,4) unfolding scan_best_def by auto
    then have "\<forall>p \<in> set (seen @ [(fid, frame)]). is_evictable (snd p) \<longrightarrow> scan_best fr (snd p)"
      using fr(5) by auto
    then show ?thesis using fr(1-4) unfolding res scan_acc_def
      by (simp only: split) (rule disjI2, rule exI[of _ fr], simp)
  qed
qed

lemma evict_scan_Cons: "evict_scan (p # rest) acc = evict_scan rest (evict_scan [p] acc)"
  by (cases p; cases acc) auto

lemma evict_scan_acc:
  assumes "\<forall>p \<in> set rest. history (snd p) \<noteq> [] \<and> hd (history (snd p)) < ct"
    and "scan_acc ct seen acc"
  shows "scan_acc ct (seen @ rest) (evict_scan rest acc)"
  using assms
proof (induction rest arbitrary: seen acc)
  case Nil
  then show ?case by simp
next
  case (Cons p rest)
  obtain fid frame where p: "p = (fid, frame)" by (cases p)
  obtain v m e where acc: "acc = (v, m, e)" by (cases acc)
  have "scan_acc ct (seen @ [p]) (evict_scan [p] acc)"
    unfolding p acc using Cons.prems by (intro scan_acc_step) (auto simp: p acc)
  from Cons.IH[OF _ this] Cons.prems(1) show ?case
    by (subst evict_scan_Cons) simp
qed

lemma frame_ok_front: "frame_ok s fr \<Longrightarrow> history fr \<noteq> [] \<and> hd (history fr) < current_timestamp s"
  by (auto simp: frame_ok_def)

lemma evict_scan_frames:
  assumes "lruk_inv s"
  shows "scan_acc (current_timestamp s) (frames s)
           (evict_scan (frames s) (- 1, 0, current_timestamp s))"
proof -
  have "\<forall>p \<in> set (frames s). history (snd p) \<noteq> [] \<and> hd (history (snd p)) < current_timestamp s"
    using assms by (auto simp: lruk_inv_def dest: frame_ok_front)
  moreover have "scan_acc (current_timestamp s) [] (- 1, 0, current_timestamp s)"
    by (simp add: scan_acc_def)
  ultimately show ?thesis
    using evict_scan_acc[of "frames s" "current_timestamp s" "[]"] by simp
qed

lemma curr_size_pos_evictable:
  assumes "lruk_inv s" and "curr_size s \<noteq> 0"
  shows "\<exists>p \<in> set (frames s). is_evictable (snd p)"
proof -
  have "unat (curr_size s) \<noteq> 0" using assms(2) by (simp add: unat_gt_0)
  then have "num_evictable (frames s) \<noteq> 0" using assms(1) by (simp add: lruk_inv_def)
  then show ?thesis by (auto simp: num_evictable_def filter_empty_conv)
qed

lemma Evict_cases:
  assumes "lruk_inv s"
  obtains (empty) "curr_size s = 0" "Evict s = (None, s)"
  | (victim) fid fr where "curr_size s \<noteq> 0" "map_of (frames s) fid = Some fr" "is_evictable fr"
      "\<forall>p \<in> set (frames s). is_evictable (snd p) \<longrightarrow> scan_best fr (snd p)"
      "Evict s = (if fid \<noteq> - 1
         then (Some fid, s\<lparr>frames := AList.delete fid (frames s), curr_size := curr_size s - 1\<rparr>)
         else (None, s))"
proof (cases "curr_size s = 0")
  case True
  then show ?thesis using empty by (simp add: Evict_def)
next
  case False
  obtain v m e where scan: "evict_scan (frames s) (- 1, 0, current_timestamp s) = (v, m, e)"
    by (cases "evict_scan (frames s) (- 1, 0, current_timestamp s)")
  from curr_size_pos_evictable[OF assms False] evict_scan_frames[OF assms]
  obtain fr where fr: "(v, fr) \<in> set (frames s)" "is_evictable fr"
      "\<forall>p \<in> set (frames s). is_evictable (snd p) \<longrightarrow> scan_best fr (snd p)"
    unfolding scan scan_acc_def by auto
  have "distinct (map fst (frames s))" using assms by (simp add: lruk_inv_def)
  then have "map_of (frames s) v = Some fr" using fr(1) by simp
  moreover have "Evict s = (if v \<noteq> - 1
         then (Some v, s\<lparr>frames := AList.delete v (frames s), curr_size := curr_size s - 1\<rparr>)
         else (None, s))"
    using False scan by (simp add: Evict_def)
  ultimately show ?thesis using victim False fr by blast
qed

lemma lruk_inv_Evict:
  assumes "lruk_inv s"
  shows "lruk_inv (snd (Evict s))"
  using assms
proof (cases rule: Evict_cases)
  case empty
  then show ?thesis using assms by simp
next
  case (victim fid fr)
  then show ?thesis using assms lruk_inv_delete[OF assms victim(2,3)] by simp
qed

lemma lruk_inv_reorder:
  assumes "lruk_inv s" and "set fs = set (frames s)" and "distinct (map fst fs)"
  shows "lruk_inv (s\<lparr>frames := fs\<rparr>)"
proof -
  have d: "distinct (frames s)" "distinct fs"
    using assms by (auto simp: lruk_inv_def distinct_map)
  then have len: "length fs = length (frames s)"
    using assms(2) by (metis distinct_card)
  have "num_evictable fs = num_evictable (frames s)"
    unfolding num_evictable_def using d assms(2)
    by (metis distinct_card distinct_filter set_filter)
  moreover have "\<forall>p \<in> set fs. frame_ok (s\<lparr>frames := fs\<rparr>) (snd p)"
    using assms by (auto simp: lruk_inv_def intro: frame_ok_mono)
  ultimately show ?thesis using assms len by (simp add: lruk_inv_def)
qed

lemma lruk_inv_init: "k \<noteq> 0 \<Longrightarrow> lruk_inv (new_LRUKReplacer n k)"
  by (simp add: lruk_inv_def new_LRUKReplacer_def num_evictable_def)

lemma zero_less_max: "(0::size_t) < - 1" by (simp add: word_gt_0)

lemma reachable_inv: "reachable s \<Longrightarrow> lruk_inv s"
  by (induction rule: reachable.induct)
     (simp_all add: lruk_inv_init lruk_inv_RecordAccess lruk_inv_SetEvictable lruk_inv_Remove
        lruk_inv_Evict lruk_inv_reorder)

text \<open>
  In a reachable state every stored timestamp is below the clock, so the subtraction in
  \<open>backward_k_distance\<close> never truncates, and a frame with \<open>k\<close> timestamps has the k-th most
  recent one at the front.
\<close>

lemma reachable_timestamps_below_clock:
  assumes "reachable s" and "(fid, fr) \<in> set (frames s)" and "t \<in> set (history fr)"
  shows "unat t < unat (current_timestamp s)"
proof -
  have "frame_ok s fr" using reachable_inv[OF assms(1)] assms(2) by (fastforce simp: lruk_inv_def)
  then show ?thesis using assms(3) by (simp add: frame_ok_def word_less_nat_alt)
qed

lemma scan_best_backward:
  assumes "frame_ok s fr" and "frame_ok s fr'" and "scan_best fr fr'"
  shows "backward_k_distance s fr' \<le> backward_k_distance s fr \<and>
         (backward_k_distance s fr' = backward_k_distance s fr \<longrightarrow>
            hd (history fr) \<le> hd (history fr'))"
proof -
  have tie: "hd (history fr) \<le> hd (history fr')" if "k_distance fr' = k_distance fr"
    using assms(3) that by (simp add: scan_best_def)
  have nth0: "history f ! 0 = hd (history f)" if "frame_ok s f" for f
    using that by (simp add: frame_ok_def hd_conv_nth)
  consider (short) "length (history fr) < unat (k_value s)"
    | (full_short) "\<not> length (history fr) < unat (k_value s)" "length (history fr') < unat (k_value s)"
    | (full) "length (history fr) = unat (k_value s)" "length (history fr') = unat (k_value s)"
    using assms(1,2) by (fastforce simp: frame_ok_def)
  then show ?thesis
  proof cases
    case short
    then have "k_distance fr = - 1" using assms(1) by (simp add: frame_ok_def)
    then have "k_distance fr' = - 1 \<longleftrightarrow> length (history fr') < unat (k_value s)"
      using assms(2) by (auto simp: frame_ok_def)
    then show ?thesis using short tie \<open>k_distance fr = - 1\<close>
      by (auto simp: backward_k_distance_def Let_def)
  next
    case full_short
    then have "k_distance fr = 0" "k_distance fr' = - 1"
      using assms(1,2) by (simp_all add: frame_ok_def)
    then have False using assms(3) by (simp add: scan_best_def)
    then show ?thesis ..
  next
    case full
    then have "k_distance fr = 0" "k_distance fr' = 0"
      using assms(1,2) by (simp_all add: frame_ok_def)
    then have "hd (history fr) \<le> hd (history fr')" using tie by simp
    then show ?thesis using full nth0[OF assms(1)] nth0[OF assms(2)]
      by (simp add: backward_k_distance_def word_le_nat_alt)
  qed
qed

text \<open>
  C1. In every reachable state a successful \<open>Evict\<close> returns a stored, evictable frame whose
  backward k-distance at that moment is maximal among the evictable frames (\<open>+\<infinity>\<close> for
  fewer than \<open>k\<close> accesses), and whose oldest retained timestamp is the smallest among the
  evictable frames of the same distance. In scenario S5 four successive calls return
  1, 2, 3, 4.
\<close>

theorem Evict_max_backward_k_distance:
  "(reachable s \<longrightarrow> Evict s = (Some fid, s') \<longrightarrow>
      (\<exists>fr. map_of (frames s) fid = Some fr \<and> is_evictable fr \<and>
         (\<forall>p \<in> set (frames s). is_evictable (snd p) \<longrightarrow>
            backward_k_distance s (snd p) \<le> backward_k_distance s fr \<and>
            (backward_k_distance s (snd p) = backward_k_distance s fr \<longrightarrow>
               hd (history fr) \<le> hd (history (snd p)))))) \<and>
   (case Evict scenario_S5 of (r1, s1) \<Rightarrow>
    case Evict s1 of (r2, s2) \<Rightarrow>
    case Evict s2 of (r3, s3) \<Rightarrow>
    case Evict s3 of (r4, s4) \<Rightarrow>
      [r1, r2, r3, r4] = [Some 1, Some 2, Some 3, Some 4])"
proof (intro conjI impI)
  assume r: "reachable s" and e: "Evict s = (Some fid, s')"
  have inv: "lruk_inv s" using r by (rule reachable_inv)
  then have oks: "\<forall>p \<in> set (frames s). frame_ok s (snd p)" by (simp add: lruk_inv_def)
  from inv show "\<exists>fr. map_of (frames s) fid = Some fr \<and> is_evictable fr \<and>
         (\<forall>p \<in> set (frames s). is_evictable (snd p) \<longrightarrow>
            backward_k_distance s (snd p) \<le> backward_k_distance s fr \<and>
            (backward_k_distance s (snd p) = backward_k_distance s fr \<longrightarrow>
               hd (history fr) \<le> hd (history (snd p))))"
  proof (cases rule: Evict_cases)
    case empty
    then show ?thesis using e by simp
  next
    case (victim v fr)
    then have "v = fid" using e by (simp split: if_splits)
    have "(v, fr) \<in> set (frames s)" using victim(2) by (rule map_of_SomeD)
    then have "frame_ok s fr" using oks by fastforce
    then have "\<forall>p \<in> set (frames s). is_evictable (snd p) \<longrightarrow>
            backward_k_distance s (snd p) \<le> backward_k_distance s fr \<and>
            (backward_k_distance s (snd p) = backward_k_distance s fr \<longrightarrow>
               hd (history fr) \<le> hd (history (snd p)))"
      using victim(4) oks scan_best_backward by blast
    then show ?thesis using victim(2,3) \<open>v = fid\<close> by blast
  qed
next
  show "case Evict scenario_S5 of (r1, s1) \<Rightarrow>
    case Evict s1 of (r2, s2) \<Rightarrow>
    case Evict s2 of (r3, s3) \<Rightarrow>
    case Evict s3 of (r4, s4) \<Rightarrow>
      [r1, r2, r3, r4] = [Some 1, Some 2, Some 3, Some 4]"
    unfolding scenario_S5_def
    by (simp add: zero_less_max RecordAccess_def SetEvictable_def Evict_def new_LRUKReplacer_def
        static_cast_frame_id_def new_Frame_def UpdateKDistance_def CalcKDistance_def)
qed

lemmas lruk_eval_defs =
  zero_less_max RecordAccess_def SetEvictable_def Remove_def Evict_def new_LRUKReplacer_def
  static_cast_frame_id_def new_Frame_def UpdateKDistance_def CalcKDistance_def

lemma reachable_scenario_S5: "reachable scenario_S5"
  unfolding scenario_S5_def fold_simps
  by (intro reachable.intros) (simp_all add: lruk_eval_defs)

theorem Evict_max_backward_k_distance_witness:
  "reachable scenario_S5 \<and> Evict scenario_S5 = (Some 1, snd (Evict scenario_S5)) \<and>
   (\<exists>fr. map_of (frames scenario_S5) 1 = Some fr \<and> is_evictable fr \<and>
      (\<forall>p \<in> set (frames scenario_S5). is_evictable (snd p) \<longrightarrow>
         backward_k_distance scenario_S5 (snd p) \<le> backward_k_distance scenario_S5 fr \<and>
         (backward_k_distance scenario_S5 (snd p) = backward_k_distance scenario_S5 fr \<longrightarrow>
            hd (history fr) \<le> hd (history (snd p)))))"
proof -
  have e: "Evict scenario_S5 = (Some 1, snd (Evict scenario_S5))"
    unfolding scenario_S5_def by (simp add: lruk_eval_defs)
  from Evict_max_backward_k_distance[of scenario_S5 1 "snd (Evict scenario_S5)"]
    reachable_scenario_S5 e
  show ?thesis by blast
qed

text \<open>
  C4. The claim is that after \<open>RecordAccess\<close> the cached distance of a frame with \<open>k\<close>
  timestamps is the clock minus \<open>history.front()\<close>. With \<open>k = 2\<close> and two accesses to frame 1
  the history is \<open>[0, 1]\<close> and the clock is 1 when the distance is computed: the cache holds
  \<open>1 - 1 = 0\<close>, the distance to the access just recorded, and not \<open>1 - 0 = 1\<close>.
\<close>

theorem RecordAccess_caches_distance_to_latest_access:
  "map_of (frames (snd (RecordAccess 1 (snd (RecordAccess 1 (new_LRUKReplacer 7 2)))))) 1 =
     Some \<lparr>history = [0, 1], k_distance = 0, is_evictable = False\<rparr> \<and>
   current_timestamp (snd (RecordAccess 1 (new_LRUKReplacer 7 2))) - hd [0, 1] = 1"
  by (simp add: lruk_eval_defs)

text \<open>In general the cache of a frame with \<open>k\<close> timestamps holds 0 after \<open>RecordAccess\<close>.\<close>

lemma RecordAccess_cached_k_distance:
  assumes "reachable s" and "current_timestamp s \<noteq> - 1" and "fst (RecordAccess f s) = None"
  shows "\<exists>fr. map_of (frames (snd (RecordAccess f s))) f = Some fr \<and>
           k_distance fr = (if length (history fr) < unat (k_value s) then - 1 else 0)"
proof -
  let ?s' = "snd (RecordAccess f s)"
  have inv: "lruk_inv ?s'"
    using assms(1,2) by (intro lruk_inv_RecordAccess reachable_inv)
  have nerr: "\<not> static_cast_frame_id (replacer_size s) \<le> f"
    using assms(3) by (auto simp: RecordAccess_def split: if_splits)
  then obtain fr where fr: "map_of (frames ?s') f = Some fr"
    by (simp add: RecordAccess_def Let_def update_conv')
  then have "(f, fr) \<in> set (frames ?s')" by (rule map_of_SomeD)
  then have "frame_ok ?s' fr" using inv by (fastforce simp: lruk_inv_def)
  moreover have "k_value ?s' = k_value s" using nerr by (simp add: RecordAccess_def Let_def)
  ultimately show ?thesis using fr by (auto simp: frame_ok_def)
qed

text \<open>
  C6. In every reachable state \<open>Size()\<close> is the number of stored frames that are evictable;
  \<open>SetEvictable\<close> changes \<open>curr_size_\<close> only when the frame exists and its flag differs from
  the argument, and a second \<open>SetEvictable(f, true)\<close> changes nothing.
\<close>

theorem Size_counts_evictable_frames:
  "(reachable s \<longrightarrow>
      unat (Size s) = length (filter (\<lambda>p. is_evictable (snd p)) (frames s))) \<and>
   (Size (snd (SetEvictable f b s)) \<noteq> Size s \<longrightarrow>
      (\<exists>fr. map_of (frames s) f = Some fr \<and> is_evictable fr \<noteq> b)) \<and>
   snd (SetEvictable f True (snd (SetEvictable f True s))) = snd (SetEvictable f True s)"
proof (intro conjI impI)
  assume "reachable s"
  then have "lruk_inv s" by (rule reachable_inv)
  then show "unat (Size s) = length (filter (\<lambda>p. is_evictable (snd p)) (frames s))"
    by (simp add: lruk_inv_def Size_def num_evictable_def)
next
  assume "Size (snd (SetEvictable f b s)) \<noteq> Size s"
  then show "\<exists>fr. map_of (frames s) f = Some fr \<and> is_evictable fr \<noteq> b"
    by (auto simp: SetEvictable_def Size_def split: if_splits option.splits)
next
  show "snd (SetEvictable f True (snd (SetEvictable f True s))) = snd (SetEvictable f True s)"
    by (auto simp: SetEvictable_def update_conv' split: option.splits)
qed

text \<open>A capacity below \<open>2^31\<close> is a value of \<open>frame_id_t\<close>: the cast keeps it.\<close>

lemma static_cast_small: "unat n < 2 ^ 31 \<Longrightarrow> static_cast_frame_id n = int (unat n)"
proof -
  assume "unat n < 2 ^ 31"
  then have "uint n < 2 ^ 31"
    by (metis of_nat_less_numeral_power_cancel_iff of_nat_unat)
  moreover have "- (2 ^ 31) \<le> (0::int)" and "(0::int) \<le> uint n" by simp_all
  then have "- (2 ^ 31) \<le> uint n" by (rule order_trans)
  ultimately have "signed_take_bit 31 (uint n) = uint n"
    by (intro signed_take_bit_int_eq_self) simp_all
  then show ?thesis
    by (simp add: static_cast_frame_id_def signed_ucast_eq)
qed


text \<open>
  C10, as amended. For a negative \<open>frame_id\<close> and a capacity that \<open>frame_id_t\<close> can hold
  (below \<open>2^31\<close>) neither \<open>RecordAccess\<close> nor \<open>SetEvictable\<close> throws, and \<open>RecordAccess\<close> stores
  a frame under that id; so a reachable state can hold a frame id outside
  \<open>0 \<le> frame_id < replacer_size\<close>.
\<close>

theorem negative_frame_id_is_accepted:
  "(f < 0 \<longrightarrow> unat (replacer_size s) < 2 ^ 31 \<longrightarrow>
      fst (RecordAccess f s) = None \<and> fst (SetEvictable f b s) = None \<and>
      map_of (frames (snd (RecordAccess f s))) f \<noteq> None) \<and>
   (\<exists>s'. reachable s' \<and> (\<exists>p \<in> set (frames s'). \<not> (0 \<le> fst p \<and> fst p < int (unat (replacer_size s')))))"
proof (intro conjI impI)
  assume neg: "f < 0" and small: "unat (replacer_size s) < 2 ^ 31"
  have ok: "\<not> static_cast_frame_id (replacer_size s) \<le> f"
    using neg static_cast_small[OF small] by (simp only: not_le)
  show "fst (RecordAccess f s) = None" using ok by (simp add: RecordAccess_def Let_def)
  show "fst (SetEvictable f b s) = None"
    using ok by (simp add: SetEvictable_def split: option.splits)
  show "map_of (frames (snd (RecordAccess f s))) f \<noteq> None"
    using ok by (simp add: RecordAccess_def Let_def update_conv')
next
  have "reachable (snd (RecordAccess (- 1) (new_LRUKReplacer 7 2)))"
    by (intro reachable.intros) (simp_all add: lruk_eval_defs)
  moreover have "\<exists>p \<in> set (frames (snd (RecordAccess (- 1) (new_LRUKReplacer 7 2)))).
      \<not> (0 \<le> fst p \<and> fst p < int (unat (replacer_size (snd (RecordAccess (- 1) (new_LRUKReplacer 7 2))))))"
    by (simp add: lruk_eval_defs)
  ultimately show "\<exists>s'. reachable s' \<and>
      (\<exists>p \<in> set (frames s'). \<not> (0 \<le> fst p \<and> fst p < int (unat (replacer_size s'))))"
    by blast
qed

theorem negative_frame_id_is_accepted_witness:
  "(- 1 :: int) < 0 \<and> unat (replacer_size (new_LRUKReplacer 7 2)) < 2 ^ 31 \<and>
   fst (RecordAccess (- 1) (new_LRUKReplacer 7 2)) = None \<and>
   fst (SetEvictable (- 1) True (new_LRUKReplacer 7 2)) = None \<and>
   map_of (frames (snd (RecordAccess (- 1) (new_LRUKReplacer 7 2)))) (- 1) \<noteq> None"
proof -
  have "unat (replacer_size (new_LRUKReplacer 7 2)) < 2 ^ 31"
    by (simp add: new_LRUKReplacer_def)
  with negative_frame_id_is_accepted[of "- 1" "new_LRUKReplacer 7 2" True]
  show ?thesis by simp
qed


text \<open>
  C8. The claim is that \<open>Evict\<close> fails only when \<open>curr_size_\<close> is 0. In the state above
  \<open>Size()\<close> is 1 and the evictable frame is the one stored under \<open>-1\<close>; the loop selects
  it, its id equals the initial value of \<open>victim_id\<close>, and \<open>Evict\<close> returns false without
  erasing anything.
\<close>

theorem Evict_fails_on_frame_minus_one:
  "reachable scenario_sentinel \<and> Size scenario_sentinel = 1 \<and>
   map_of (frames scenario_sentinel) (- 1) = Some \<lparr>history = [0], k_distance = - 1, is_evictable = True\<rparr> \<and>
   Evict scenario_sentinel = (None, scenario_sentinel)"
proof -
  have "reachable scenario_sentinel"
    unfolding scenario_sentinel_def by (intro reachable.intros) (simp_all add: lruk_eval_defs)
  then show ?thesis
    unfolding scenario_sentinel_def by (simp add: lruk_eval_defs Size_def)
qed

text \<open>
  Where no frame is stored under \<open>-1\<close>, \<open>Evict\<close> fails exactly when \<open>curr_size_\<close> is 0, and
  a successful call erases the victim, and only it, and decrements \<open>curr_size_\<close> by one.
\<close>

lemma Evict_ok_unless_sentinel:
  assumes "reachable s" and "map_of (frames s) (- 1) = None"
  shows "(fst (Evict s) = None \<longleftrightarrow> curr_size s = 0) \<and>
         (fst (Evict s) = None \<longrightarrow> snd (Evict s) = s) \<and>
         (\<forall>fid. fst (Evict s) = Some fid \<longrightarrow>
            map_of (frames s) fid \<noteq> None \<and>
            map_of (frames (snd (Evict s))) = (map_of (frames s))(fid := None) \<and>
            unat (curr_size (snd (Evict s))) + 1 = unat (curr_size s) \<and>
            snd (Evict s) = s\<lparr>frames := frames (snd (Evict s)), curr_size := curr_size (snd (Evict s))\<rparr>)"
proof -
  have inv: "lruk_inv s" using assms(1) by (rule reachable_inv)
  then show ?thesis
  proof (cases rule: Evict_cases)
    case empty
    then show ?thesis by simp
  next
    case (victim v fr)
    then have "v \<noteq> - 1" using assms(2) by auto
    then have e: "Evict s = (Some v, s\<lparr>frames := AList.delete v (frames s), curr_size := curr_size s - 1\<rparr>)"
      using victim(5) by simp
    have "unat (curr_size s - 1) + 1 = unat (curr_size s)"
      using victim(1) by (simp add: unat_pred64 unat_gt_0)
    then show ?thesis using victim(1,2) e by (simp add: delete_conv')
  qed
qed

theorem Size_counts_evictable_frames_witness:
  "reachable scenario_S5 \<and> unat (Size scenario_S5) = 4 \<and>
   length (filter (\<lambda>p. is_evictable (snd p)) (frames scenario_S5)) = 4 \<and>
   Size (snd (SetEvictable 1 False scenario_S5)) \<noteq> Size scenario_S5 \<and>
   (\<exists>fr. map_of (frames scenario_S5) 1 = Some fr \<and> is_evictable fr \<noteq> False) \<and>
   snd (SetEvictable 1 True (snd (SetEvictable 1 True scenario_S5))) =
     snd (SetEvictable 1 True scenario_S5)"
proof -
  have sz: "unat (Size scenario_S5) = 4"
    and ne: "Size (snd (SetEvictable 1 False scenario_S5)) \<noteq> Size scenario_S5"
    unfolding scenario_S5_def by (simp_all add: lruk_eval_defs Size_def)
  from Size_counts_evictable_frames[of scenario_S5 1 False] reachable_scenario_S5 sz ne
    Size_counts_evictable_frames[of scenario_S5 1 True]
  show ?thesis by simp
qed

text \<open>
  Scenario S4 of the specification, as a check of the model: \<open>k = 2\<close>, capacity 7, accesses
  to 1, 2, 3, 4, 5, 6, 1, 2, 3, 4, 5, frames 1 to 6 set evictable. \<open>Evict\<close> returns 6, the only
  frame with fewer than two accesses, and \<open>Size\<close> becomes 5; the next victim is 1.
\<close>

lemma scenario_S4:
  "(case Evict (fold (\<lambda>call s. snd (call s))
       [RecordAccess 1, RecordAccess 2, RecordAccess 3, RecordAccess 4, RecordAccess 5,
        RecordAccess 6, RecordAccess 1, RecordAccess 2, RecordAccess 3, RecordAccess 4,
        RecordAccess 5, SetEvictable 1 True, SetEvictable 2 True, SetEvictable 3 True,
        SetEvictable 4 True, SetEvictable 5 True, SetEvictable 6 True]
       (new_LRUKReplacer 7 2)) of
      (r1, s1) \<Rightarrow> (r1, Size s1, fst (Evict s1))) = (Some 6, 5, Some 1)"
  by (simp add: lruk_eval_defs Size_def)


text \<open>
  C10 as stated fails for "every negative \<open>frame_id\<close>". A replacer of capacity \<open>2^32 - 1\<close> has
  the cast capacity \<open>-1\<close>, so the negative id \<open>-1\<close> does not pass the range check:
  \<open>RecordAccess(-1)\<close> and \<open>SetEvictable(-1, true)\<close> throw \<open>InvalidFrameId\<close> and no frame is
  stored.
\<close>

theorem negative_frame_id_rejected_by_wrapped_capacity:
  "(- 1 :: int) < 0 \<and>
   fst (RecordAccess (- 1) (new_LRUKReplacer 4294967295 2)) = Some InvalidFrameId \<and>
   fst (SetEvictable (- 1) True (new_LRUKReplacer 4294967295 2)) = Some InvalidFrameId \<and>
   map_of (frames (snd (RecordAccess (- 1) (new_LRUKReplacer 4294967295 2)))) (- 1) = None"
  by (simp add: lruk_eval_defs)

section \<open>Extendible hash table: invariant and claims\<close>

text \<open>The defining equations, for evaluating the operations on concrete tables.\<close>

lemmas ht_eval_defs = Insert_def upsert_def split_bucket_def redistribute_def Bucket_Insert_def IsFull_def
  bucket_at_def IndexOf_def new_ExtendibleHashTable_def new_Bucket_def Let_def Find_def Bucket_Find_def

lemma IndexOf_mod: "IndexOf hash ht key = hash key mod 2 ^ global_depth ht"
proof -
  have "IndexOf hash ht key = hash key AND mask (global_depth ht)"
    by (simp only: IndexOf_def Let_def mask_eq_exp_minus_1)
  then show ?thesis by (simp only: take_bit_eq_mod flip: take_bit_eq_mask)
qed

lemma and_exp_nat: "((n::nat) AND 2 ^ d = 0) \<longleftrightarrow> \<not> bit n d"
  by (simp add: and_exp_eq_0_iff_not_bit)

lemma take_bit_eq_iff_bits:
  "take_bit m (x::nat) = take_bit m y \<longleftrightarrow> (\<forall>n<m. bit x n = bit y n)"
  by (auto simp: bit_eq_iff bit_take_bit_iff)

lemma mod_exp_Suc_eq:
  "(x::nat) mod 2 ^ Suc d = y mod 2 ^ Suc d \<longleftrightarrow> x mod 2 ^ d = y mod 2 ^ d \<and> bit x d = bit y d"
  unfolding take_bit_eq_mod[symmetric] take_bit_eq_iff_bits
  by (auto simp: less_Suc_eq)

lemma mod_exp_Suc_eq':
  "(x::nat) mod (2 * 2 ^ d) = y mod (2 * 2 ^ d) \<longleftrightarrow> x mod 2 ^ d = y mod 2 ^ d \<and> bit x d = bit y d"
  using mod_exp_Suc_eq[of x d y] by simp

lemma mod_exp_le: "d \<le> g \<Longrightarrow> ((x::nat) mod 2 ^ g) mod 2 ^ d = x mod 2 ^ d"
  by (simp add: dvd_power_iff_le mod_mod_cancel)

lemma bit_mod_exp: "d < g \<Longrightarrow> bit ((x::nat) mod 2 ^ g) d = bit x d"
  by (simp add: bit_take_bit_iff flip: take_bit_eq_mod)

lemma nth_double: "i < 2 * length xs \<Longrightarrow> (xs @ xs) ! i = xs ! (i mod length xs)"
  by (cases "i < length xs") (simp_all add: nth_append le_mod_geq)

lemma redistribute_filter:
  assumes "length (items n1) + length its \<le> array_size n1"
    and "length (items n2) + length its \<le> array_size n2"
  shows "redistribute hash m its (n1, n2) =
           (n1\<lparr>items := items n1 @ filter (\<lambda>p. hash (fst p) AND m = 0) its\<rparr>,
            n2\<lparr>items := items n2 @ filter (\<lambda>p. hash (fst p) AND m \<noteq> 0) its\<rparr>)"
  using assms unfolding redistribute_def
  by (induction its arbitrary: n1 n2) (auto simp: Bucket_Insert_def IsFull_def)

lemma ht_inv_new: "ht_inv hash (new_ExtendibleHashTable n)"
  by (simp add: ht_inv_def new_ExtendibleHashTable_def new_Bucket_def bucket_at_def)

lemma IndexOf_less: "ht_inv hash ht \<Longrightarrow> IndexOf hash ht key < length (dir ht)"
  by (simp add: ht_inv_def IndexOf_mod)

text \<open>Changing the items of one bucket, with keys that belong to it\<close>

lemma ht_inv_update_items:
  assumes inv: "ht_inv hash ht" and i0: "i0 < length (dir ht)"
    and keys: "\<forall>k \<in> fst ` set its. k \<in> fst ` set (items (bucket_at ht i0)) \<or>
                 hash k mod 2 ^ global_depth ht = i0"
  shows "ht_inv hash (ht\<lparr>heap := (heap ht)[dir ht ! i0 := (bucket_at ht i0)\<lparr>items := its\<rparr>]\<rparr>)"
proof -
  let ?a = "dir ht ! i0"
  let ?b = "bucket_at ht i0"
  let ?ht' = "ht\<lparr>heap := (heap ht)[?a := ?b\<lparr>items := its\<rparr>]\<rparr>"
  have len: "length (dir ht) = 2 ^ global_depth ht" and g30: "global_depth ht \<le> 30"
    using inv by (simp_all add: ht_inv_def)
  have slot: "dir ht ! i < length (heap ht)" "depth (bucket_at ht i) \<le> global_depth ht"
      "array_size (bucket_at ht i) = bucket_size ht"
      "\<And>j. j < length (dir ht) \<Longrightarrow> dir ht ! j = dir ht ! i \<Longrightarrow>
         j mod 2 ^ depth (bucket_at ht i) = i mod 2 ^ depth (bucket_at ht i)"
      "\<And>k. k \<in> fst ` set (items (bucket_at ht i)) \<Longrightarrow>
         hash k mod 2 ^ depth (bucket_at ht i) = i mod 2 ^ depth (bucket_at ht i)"
    if "i < length (dir ht)" for i
    using inv that unfolding ht_inv_def by blast+
  have at: "bucket_at ?ht' i = (if dir ht ! i = ?a then ?b\<lparr>items := its\<rparr> else bucket_at ht i)"
    if "i < length (dir ht)" for i
    using slot(1)[OF that] slot(1)[OF i0] by (simp add: bucket_at_def nth_list_update)
  have same: "bucket_at ht i = ?b" if "dir ht ! i = ?a" for i
    using that by (simp add: bucket_at_def)
  have keys': "hash k mod 2 ^ depth ?b = i mod 2 ^ depth ?b"
    if i: "i < length (dir ht)" and eq: "dir ht ! i = ?a" and k: "k \<in> fst ` set its" for i k
  proof -
    have ii0: "i mod 2 ^ depth ?b = i0 mod 2 ^ depth ?b"
      using slot(4)[OF i0 i eq] .
    from keys k consider "k \<in> fst ` set (items ?b)" | "hash k mod 2 ^ global_depth ht = i0"
      by blast
    then show ?thesis
    proof cases
      case 1
      then show ?thesis using slot(5)[OF i0] ii0 by simp
    next
      case 2
      then have "hash k mod 2 ^ depth ?b = i0 mod 2 ^ depth ?b"
        using mod_exp_le[OF slot(2)[OF i0], of "hash k"] by simp
      then show ?thesis using ii0 by simp
    qed
  qed
  show ?thesis
    unfolding ht_inv_def
  proof (intro conjI allI impI)
    fix i assume i: "i < length (dir ?ht')"
    then have i': "i < length (dir ht)" by simp
    show "dir ?ht' ! i < length (heap ?ht')" using slot(1)[OF i'] by simp
    show "depth (bucket_at ?ht' i) \<le> global_depth ?ht'"
      using slot(2)[OF i'] slot(2)[OF i0] by (simp add: at[OF i'])
    show "array_size (bucket_at ?ht' i) = bucket_size ?ht'"
      using slot(3)[OF i'] slot(3)[OF i0] by (simp add: at[OF i'])
    show "\<forall>k \<in> fst ` set (items (bucket_at ?ht' i)).
           hash k mod 2 ^ depth (bucket_at ?ht' i) = i mod 2 ^ depth (bucket_at ?ht' i)"
      using slot(5)[OF i'] keys'[OF i'] same[of i] by (auto simp: at[OF i'])
    fix j assume j: "j < length (dir ?ht')" and eq: "dir ?ht' ! j = dir ?ht' ! i"
    then show "j mod 2 ^ depth (bucket_at ?ht' i) = i mod 2 ^ depth (bucket_at ?ht' i)"
      using slot(4)[OF i', of j] same[of i] by (auto simp: at[OF i'])
  qed (simp_all add: len g30)
qed

lemma ht_inv_upsert:
  assumes "ht_inv hash ht"
  shows "ht_inv hash (upsert hash key val ht)"
proof -
  let ?i0 = "IndexOf hash ht key"
  let ?b = "bucket_at ht ?i0"
  define its where "its = (if map_of (items ?b) key \<noteq> None then AList.update key val (items ?b)
     else items (snd (Bucket_Insert key val ?b)))"
  have up: "upsert hash key val ht = ht\<lparr>heap := (heap ht)[dir ht ! ?i0 := ?b\<lparr>items := its\<rparr>]\<rparr>"
    by (auto simp: upsert_def Let_def its_def bucket_at_def Bucket_Insert_def)
  have "fst ` set its \<subseteq> insert key (fst ` set (items ?b))"
    by (auto simp: its_def Bucket_Insert_def dom_update)
  then have "\<forall>k \<in> fst ` set its. k \<in> fst ` set (items ?b) \<or> hash k mod 2 ^ global_depth ht = ?i0"
    by (auto simp: IndexOf_mod)
  from ht_inv_update_items[OF assms IndexOf_less[OF assms] this] show ?thesis
    by (simp add: up)
qed

lemma ht_inv_Remove:
  assumes "ht_inv hash ht"
  shows "ht_inv hash (snd (Remove_key hash key ht))"
proof -
  let ?i0 = "IndexOf hash ht key"
  let ?b = "bucket_at ht ?i0"
  define its where "its = items (snd (Bucket_Remove key ?b))"
  have up: "snd (Remove_key hash key ht) = ht\<lparr>heap := (heap ht)[dir ht ! ?i0 := ?b\<lparr>items := its\<rparr>]\<rparr>"
    by (auto simp: Remove_key_def Let_def its_def bucket_at_def Bucket_Remove_def split: option.splits prod.splits)
  have "\<forall>k \<in> fst ` set its. k \<in> fst ` set (items ?b) \<or> hash k mod 2 ^ global_depth ht = ?i0"
    by (auto simp: its_def Bucket_Remove_def split: option.splits)
  from ht_inv_update_items[OF assms IndexOf_less[OF assms] this] show ?thesis
    by (simp add: up)
qed

text \<open>What one split does to each field of the table.\<close>

lemma split_bucket_Some:
  assumes inv: "ht_inv hash ht" and full: "IsFull (bucket_at ht (IndexOf hash ht key))"
    and res: "split_bucket hash key ht = Some ht'"
    and a: "a = dir ht ! IndexOf hash ht key" and d: "d = depth (heap ht ! a)"
    and g: "g = global_depth ht"
  shows "global_depth ht' = (if d = g then Suc g else g)"
    and "global_depth ht' \<le> 30"
    and "bucket_size ht' = bucket_size ht"
    and "num_buckets ht' = Suc (num_buckets ht)"
    and "length (dir ht') = 2 ^ global_depth ht'"
    and "heap ht' = (heap ht)[a := (heap ht ! a)\<lparr>depth := Suc d\<rparr>] @
           [\<lparr>array_size = bucket_size ht, depth = Suc d,
              items = filter (\<lambda>p. \<not> bit (hash (fst p)) d) (items (heap ht ! a))\<rparr>,
            \<lparr>array_size = bucket_size ht, depth = Suc d,
              items = filter (\<lambda>p. bit (hash (fst p)) d) (items (heap ht ! a))\<rparr>]"
    and "\<And>i. i < length (dir ht') \<Longrightarrow>
           dir ht' ! i = (if dir ht ! (i mod 2 ^ g) = a
                          then (if bit i d then Suc (length (heap ht)) else length (heap ht))
                          else dir ht ! (i mod 2 ^ g))"
proof -
  have len: "length (dir ht) = 2 ^ g" and g30: "g \<le> 30"
    using inv by (simp_all add: ht_inv_def g)
  have i0: "IndexOf hash ht key < length (dir ht)" using inv by (rule IndexOf_less)
  then have a_lt: "a < length (heap ht)" and asz: "array_size (heap ht ! a) = bucket_size ht"
    using inv unfolding ht_inv_def a bucket_at_def by blast+
  have nover: "\<not> (d = g \<and> 2 ^ 31 \<le> 2 * length (dir ht))"
    using res by (auto simp: split_bucket_def Let_def a d g)
  define dir1 where "dir1 = (if d = g then dir ht @ dir ht else dir ht)"
  define g' where "g' = (if d = g then Suc g else g)"
  have len1: "length dir1 = 2 ^ g'" by (simp add: dir1_def g'_def len)
  have dir1_nth: "dir1 ! i = dir ht ! (i mod 2 ^ g)" if "i < length dir1" for i
    using that nth_double[of i "dir ht"] by (auto simp: dir1_def len)
  have full_len: "length (items (heap ht ! a)) = bucket_size ht"
    using full asz by (simp add: IsFull_def bucket_at_def a)
  have red: "redistribute hash (2 ^ d) (items (heap ht ! a))
       (new_Bucket (bucket_size ht) (Suc d), new_Bucket (bucket_size ht) (Suc d)) =
     (\<lparr>array_size = bucket_size ht, depth = Suc d,
        items = filter (\<lambda>p. \<not> bit (hash (fst p)) d) (items (heap ht ! a))\<rparr>,
      \<lparr>array_size = bucket_size ht, depth = Suc d,
        items = filter (\<lambda>p. bit (hash (fst p)) d) (items (heap ht ! a))\<rparr>)"
    using full_len by (subst redistribute_filter) (simp_all add: new_Bucket_def and_exp_nat)
  have ht': "ht' = ht\<lparr>global_depth := g',
         heap := (heap ht)[a := (heap ht ! a)\<lparr>depth := Suc d\<rparr>] @
           [\<lparr>array_size = bucket_size ht, depth = Suc d,
              items = filter (\<lambda>p. \<not> bit (hash (fst p)) d) (items (heap ht ! a))\<rparr>,
            \<lparr>array_size = bucket_size ht, depth = Suc d,
              items = filter (\<lambda>p. bit (hash (fst p)) d) (items (heap ht ! a))\<rparr>],
         dir := map (\<lambda>i. if dir1 ! i = a
                          then (if i AND 2 ^ d = 0 then length (heap ht) else Suc (length (heap ht)))
                          else dir1 ! i) [0..<length dir1],
         num_buckets := Suc (num_buckets ht)\<rparr>"
  proof (cases "d = g")
    case True
    then show ?thesis
      using res nover a_lt red
      by (simp add: split_bucket_def Let_def a[symmetric] d[symmetric] g[symmetric]
          dir1_def g'_def cong: if_cong)
  next
    case False
    then show ?thesis
      using res a_lt red
      by (simp add: split_bucket_def Let_def a[symmetric] d[symmetric] g
          dir1_def g'_def cong: if_cong)
  qed
  have gd_grown: "global_depth ht' = g'" and bs_grown: "bucket_size ht' = bucket_size ht"
    by (simp_all add: ht')
  show "global_depth ht' = (if d = g then Suc g else g)" by (simp add: ht' g'_def)
  have "Suc g \<le> 30" if "d = g"
  proof -
    have "(2::nat) ^ Suc g < 2 ^ 31" using nover that len by simp
    then have "Suc g < 31" by (simp only: power_strict_increasing_iff)
    then show ?thesis by simp
  qed
  then show "global_depth ht' \<le> 30" using g30 by (simp add: ht' g'_def)
  show "bucket_size ht' = bucket_size ht" by (simp add: ht')
  show "num_buckets ht' = Suc (num_buckets ht)" by (simp add: ht')
  show "length (dir ht') = 2 ^ global_depth ht'" by (simp add: ht' len1)
  show "heap ht' = (heap ht)[a := (heap ht ! a)\<lparr>depth := Suc d\<rparr>] @
           [\<lparr>array_size = bucket_size ht, depth = Suc d,
              items = filter (\<lambda>p. \<not> bit (hash (fst p)) d) (items (heap ht ! a))\<rparr>,
            \<lparr>array_size = bucket_size ht, depth = Suc d,
              items = filter (\<lambda>p. bit (hash (fst p)) d) (items (heap ht ! a))\<rparr>]"
    by (simp add: ht')
  show "dir ht' ! i = (if dir ht ! (i mod 2 ^ g) = a
                          then (if bit i d then Suc (length (heap ht)) else length (heap ht))
                          else dir ht ! (i mod 2 ^ g))" if "i < length (dir ht')" for i
    using that dir1_nth[of i] by (simp add: ht' and_exp_nat)
qed

text \<open>A split keeps the invariant.\<close>

lemma ht_inv_split_bucket:
  assumes inv: "ht_inv hash ht" and full: "IsFull (bucket_at ht (IndexOf hash ht key))"
    and res: "split_bucket hash key ht = Some ht'"
  shows "ht_inv hash ht'"
proof -
  define a where "a = dir ht ! IndexOf hash ht key"
  define d where "d = depth (heap ht ! a)"
  define g where "g = global_depth ht"
  define n where "n = length (heap ht)"
  define b1 :: "('a, 'b) Bucket" where "b1 = \<lparr>array_size = bucket_size ht, depth = Suc d,
              items = filter (\<lambda>p. \<not> bit (hash (fst p)) d) (items (heap ht ! a))\<rparr>"
  define b2 :: "('a, 'b) Bucket" where "b2 = \<lparr>array_size = bucket_size ht, depth = Suc d,
              items = filter (\<lambda>p. bit (hash (fst p)) d) (items (heap ht ! a))\<rparr>"
  note sb = split_bucket_Some[OF inv full res a_def d_def g_def, folded n_def b1_def b2_def]
  have len: "length (dir ht) = 2 ^ g"
    using inv by (simp add: ht_inv_def g_def)
  have slot: "dir ht ! i < n" "depth (bucket_at ht i) \<le> g"
      "array_size (bucket_at ht i) = bucket_size ht"
      "\<And>j. j < 2 ^ g \<Longrightarrow> dir ht ! j = dir ht ! i \<Longrightarrow>
         j mod 2 ^ depth (bucket_at ht i) = i mod 2 ^ depth (bucket_at ht i)"
      "\<And>k. k \<in> fst ` set (items (bucket_at ht i)) \<Longrightarrow>
         hash k mod 2 ^ depth (bucket_at ht i) = i mod 2 ^ depth (bucket_at ht i)"
    if "i < 2 ^ g" for i
    using inv that unfolding ht_inv_def g_def[symmetric] n_def[symmetric] len by blast+
  have i0: "IndexOf hash ht key < 2 ^ g" by (simp add: IndexOf_mod g_def)
  have a_lt: "a < n" using slot(1)[OF i0] by (simp add: a_def)
  have old: "bucket_at ht i = heap ht ! a" if "dir ht ! i = a" for i
    using that by (simp add: bucket_at_def)
  have d_le: "d \<le> g" using slot(2)[OF i0] by (simp add: d_def a_def bucket_at_def)
  have g_le: "g \<le> global_depth ht'" by (simp add: sb(1))
  have d_lt: "Suc d \<le> global_depth ht'" using d_le by (auto simp: sb(1))
  have modg: "i mod 2 ^ g < 2 ^ g" for i :: nat by simp
  have heap_n: "heap ht' ! n = b1" "heap ht' ! Suc n = b2"
    by (simp_all add: sb(6) nth_append n_def)
  have heap_c: "heap ht' ! c = heap ht ! c" if "c < n" "c \<noteq> a" for c
    using that by (simp add: sb(6) nth_append n_def)
  have len_heap: "length (heap ht') = Suc (Suc n)" by (simp add: sb(6) n_def)
  show ?thesis
    unfolding ht_inv_def
  proof (intro conjI allI impI)
    show "length (dir ht') = 2 ^ global_depth ht'" by (rule sb(5))
    show "global_depth ht' \<le> 30" by (rule sb(2))
  next
    fix i assume i: "i < length (dir ht')"
    define c where "c = dir ht ! (i mod 2 ^ g)"
    have c_lt: "c < n" using slot(1)[OF modg] by (simp add: c_def)
    have diri: "dir ht' ! i = (if c = a then (if bit i d then Suc n else n) else c)"
      using sb(7)[OF i] by (simp add: c_def)
    have at: "bucket_at ht' i =
        (if c = a then (if bit i d then b2 else b1) else bucket_at ht (i mod 2 ^ g))"
      using c_lt heap_n heap_c[of c] by (simp add: bucket_at_def[of ht'] diri) (simp add: bucket_at_def c_def)
    show "dir ht' ! i < length (heap ht')" using c_lt by (simp add: diri len_heap)
    show "depth (bucket_at ht' i) \<le> global_depth ht'"
      using d_lt slot(2)[OF modg, of i] g_le by (simp add: at b1_def b2_def)
    show "array_size (bucket_at ht' i) = bucket_size ht'"
      using slot(3)[OF modg, of i] by (simp add: at b1_def b2_def sb(3))
    show "\<forall>k \<in> fst ` set (items (bucket_at ht' i)).
           hash k mod 2 ^ depth (bucket_at ht' i) = i mod 2 ^ depth (bucket_at ht' i)"
    proof (cases "c = a")
      case True
      have "hash k mod 2 ^ d = i mod 2 ^ d" if "(k, v) \<in> set (items (heap ht ! a))" for k v
      proof -
        have "k \<in> fst ` set (items (bucket_at ht (i mod 2 ^ g)))"
          using that old[of "i mod 2 ^ g"] True by (force simp: c_def)
        from slot(5)[OF modg this] show ?thesis
          using old[of "i mod 2 ^ g"] True d_le by (simp add: c_def d_def[symmetric] mod_exp_le)
      qed
      then show ?thesis using True
        by (auto simp: at b1_def b2_def mod_exp_Suc_eq')
    next
      case False
      have "depth (bucket_at ht (i mod 2 ^ g)) \<le> g" using slot(2)[OF modg] .
      then show ?thesis using False slot(5)[OF modg, of _ i]
        by (simp add: at mod_exp_le)
    qed
    fix j assume j: "j < length (dir ht')" and eq: "dir ht' ! j = dir ht' ! i"
    define c' where "c' = dir ht ! (j mod 2 ^ g)"
    have c'_lt: "c' < n" using slot(1)[OF modg] by (simp add: c'_def)
    have dirj: "dir ht' ! j = (if c' = a then (if bit j d then Suc n else n) else c')"
      using sb(7)[OF j] by (simp add: c'_def)
    show "j mod 2 ^ depth (bucket_at ht' i) = i mod 2 ^ depth (bucket_at ht' i)"
    proof (cases "c = a")
      case True
      then have c'a: "c' = a" and bits: "bit j d = bit i d"
        using eq c'_lt c_lt by (auto simp: diri dirj split: if_splits)
      have "(j mod 2 ^ g) mod 2 ^ d = (i mod 2 ^ g) mod 2 ^ d"
        using slot(4)[OF modg modg, of j i] True c'a old[of "i mod 2 ^ g"]
        by (simp add: c_def c'_def d_def[symmetric])
      then have "j mod 2 ^ d = i mod 2 ^ d" using d_le by (simp add: mod_exp_le)
      then show ?thesis using True bits by (simp add: at b1_def b2_def mod_exp_Suc_eq')
    next
      case False
      then have "c' = c" using eq c'_lt c_lt by (auto simp: diri dirj split: if_splits)
      then have "(j mod 2 ^ g) mod 2 ^ depth (bucket_at ht (i mod 2 ^ g)) =
                 (i mod 2 ^ g) mod 2 ^ depth (bucket_at ht (i mod 2 ^ g))"
        using slot(4)[OF modg modg, of j i] by (simp add: c_def c'_def)
      then show ?thesis using False slot(2)[OF modg, of i] by (simp add: at mod_exp_le)
    qed
  qed
qed

text \<open>
  What holds when the loop returns: the invariant, a target bucket that is not full, and
  either at least one more bucket or the same table.
\<close>

lemma split_while_inv:
  assumes "split_while hash key ht = Some ht'" and "ht_inv hash ht"
  shows "ht_inv hash ht' \<and> \<not> IsFull (bucket_at ht' (IndexOf hash ht' key)) \<and>
         bucket_size ht' = bucket_size ht \<and>
         (if IsFull (bucket_at ht (IndexOf hash ht key))
          then num_buckets ht < num_buckets ht' else ht' = ht)"
proof -
  let ?P = "\<lambda>hash key ht ht'. ht_inv hash ht \<longrightarrow>
     ht_inv hash ht' \<and> \<not> IsFull (bucket_at ht' (IndexOf hash ht' key)) \<and>
     bucket_size ht' = bucket_size ht \<and>
     (if IsFull (bucket_at ht (IndexOf hash ht key))
      then num_buckets ht < num_buckets ht' else ht' = ht)"
  have step: "?P hash key ht y"
    if IH: "\<And>hash key ht y. loop hash key ht = Some y \<Longrightarrow> ?P hash key ht y"
      and eq: "(if IsFull (bucket_at ht (IndexOf hash ht key))
                then Option.bind (split_bucket hash key ht) (loop hash key)
                else Some ht) = Some y"
    for loop hash key ht y
  proof
    assume inv: "ht_inv hash ht"
    show "ht_inv hash y \<and> \<not> IsFull (bucket_at y (IndexOf hash y key)) \<and>
          bucket_size y = bucket_size ht \<and>
          (if IsFull (bucket_at ht (IndexOf hash ht key))
           then num_buckets ht < num_buckets y else y = ht)"
    proof (cases "IsFull (bucket_at ht (IndexOf hash ht key))")
      case True
      then obtain ht1 where sb: "split_bucket hash key ht = Some ht1"
          and l: "loop hash key ht1 = Some y"
        using eq by (auto simp: bind_eq_Some_conv)
      have "ht_inv hash ht1" using inv True sb by (rule ht_inv_split_bucket)
      moreover have "bucket_size ht1 = bucket_size ht"
        and "num_buckets ht1 = Suc (num_buckets ht)"
        using split_bucket_Some(3,4)[OF inv True sb refl refl refl] .
      ultimately show ?thesis using IH[OF l] True by (auto split: if_splits)
    next
      case False
      then show ?thesis using eq inv by simp
    qed
  qed
  have "?P hash key ht ht'"
  proof (rule split_while.raw_induct[where P = ?P])
    show "split_while hash key ht = Some ht'" by (rule assms(1))
  next
    fix loop hash key ht y
    assume "\<And>hash key ht y. loop hash key ht = Some y \<Longrightarrow> ?P hash key ht y"
      and "(if IsFull (bucket_at ht (IndexOf hash ht key))
                then Option.bind (split_bucket hash key ht) (loop hash key)
                else Some ht) = Some y"
    then show "?P hash key ht y" by (rule step)
  qed
  with assms(2) show ?thesis by blast
qed

lemma ht_inv_Insert:
  assumes "ht_inv hash ht" and "Insert hash key val ht = Some ht'"
  shows "ht_inv hash ht'"
  using assms split_while_inv ht_inv_upsert by (fastforce simp: Insert_def)

lemma ht_reachable_inv: "ht_reachable hash ht \<Longrightarrow> ht_inv hash ht"
  by (induction rule: ht_reachable.induct) (simp_all add: ht_inv_new ht_inv_Insert ht_inv_Remove)

text \<open>
  C5. In every reachable table the directory has \<open>2 ^ global_depth\<close> slots and
  \<open>GetLocalDepth(i) \<le> GetGlobalDepth()\<close> for every directory index \<open>i\<close>.
\<close>

theorem directory_size_and_depth_bound:
  assumes "ht_reachable hash ht"
  shows "length (dir ht) = 2 ^ GetGlobalDepth ht \<and>
         (\<forall>i < length (dir ht). GetLocalDepth ht i \<le> GetGlobalDepth ht)"
  using ht_reachable_inv[OF assms]
  by (simp add: ht_inv_def GetGlobalDepth_def GetLocalDepth_def)

lemma Find_upsert:
  assumes "ht_inv hash ht" and "\<not> IsFull (bucket_at ht (IndexOf hash ht key))"
  shows "Find hash key (upsert hash key val ht) = Some val"
proof -
  let ?i0 = "IndexOf hash ht key"
  have "dir ht ! ?i0 < length (heap ht)"
    using assms(1) IndexOf_less[OF assms(1), of key] unfolding ht_inv_def by blast
  moreover have "IndexOf hash (upsert hash key val ht) key = ?i0"
    by (simp add: IndexOf_def upsert_def Let_def)
  ultimately show ?thesis using assms(2)
    by (auto simp: Find_def Bucket_Find_def bucket_at_def upsert_def Let_def Bucket_Insert_def
        update_conv' map_of_eq_None_iff map_add_Some_iff)
qed

text \<open>
  C2. In every reachable table, if \<open>Insert(k, v)\<close> returns then \<open>Find(k)\<close> in the table it
  leaves finds \<open>v\<close>.
\<close>

theorem Find_after_Insert:
  assumes "ht_reachable hash ht" and "Insert hash key val ht = Some ht'"
  shows "Find hash key ht' = Some val"
proof -
  from assms(2) obtain ht1 where sw: "split_while hash key ht = Some ht1"
    and ht': "ht' = upsert hash key val ht1"
    by (auto simp: Insert_def)
  from split_while_inv[OF sw ht_reachable_inv[OF assms(1)]] show ?thesis
    unfolding ht' by (intro Find_upsert) simp_all
qed

lemma keys_agree_on_depth:
  assumes inv: "ht_inv hash ht" and x: "x \<in> fst ` set (items (bucket_at ht (IndexOf hash ht key)))"
  shows "hash x mod 2 ^ depth (bucket_at ht (IndexOf hash ht key)) =
         hash key mod 2 ^ depth (bucket_at ht (IndexOf hash ht key))"
proof -
  let ?i0 = "IndexOf hash ht key"
  have i0: "?i0 < length (dir ht)" using inv by (rule IndexOf_less)
  then have "depth (bucket_at ht ?i0) \<le> global_depth ht"
    and "hash x mod 2 ^ depth (bucket_at ht ?i0) = ?i0 mod 2 ^ depth (bucket_at ht ?i0)"
    using inv x unfolding ht_inv_def by blast+
  then show ?thesis by (simp add: IndexOf_mod mod_exp_le)
qed

text \<open>The target bucket after a split: the items that share the split bit with the key.\<close>

lemma split_bucket_target:
  assumes inv: "ht_inv hash ht" and full: "IsFull (bucket_at ht (IndexOf hash ht key))"
    and res: "split_bucket hash key ht = Some ht'"
  shows "bucket_at ht' (IndexOf hash ht' key) =
           \<lparr>array_size = bucket_size ht,
            depth = Suc (depth (bucket_at ht (IndexOf hash ht key))),
            items = filter (\<lambda>p. bit (hash (fst p)) (depth (bucket_at ht (IndexOf hash ht key))) =
                                 bit (hash key) (depth (bucket_at ht (IndexOf hash ht key))))
                      (items (bucket_at ht (IndexOf hash ht key)))\<rparr>"
proof -
  define a where "a = dir ht ! IndexOf hash ht key"
  define d where "d = depth (heap ht ! a)"
  define g where "g = global_depth ht"
  note sb = split_bucket_Some[OF inv full res a_def d_def g_def]
  have old: "bucket_at ht (IndexOf hash ht key) = heap ht ! a" by (simp add: bucket_at_def a_def)
  have i0: "IndexOf hash ht key < length (dir ht)" using inv by (rule IndexOf_less)
  then have d_le: "d \<le> g" using inv unfolding ht_inv_def old[symmetric] d_def g_def by blast
  then have d_lt: "d < global_depth ht'" and g_le: "g \<le> global_depth ht'" by (auto simp: sb(1))
  let ?i1 = "IndexOf hash ht' key"
  have i1: "?i1 < length (dir ht')" by (simp add: IndexOf_mod sb(5))
  have "?i1 mod 2 ^ g = IndexOf hash ht key"
    using g_le by (simp add: IndexOf_mod mod_exp_le g_def)
  then have "dir ht ! (?i1 mod 2 ^ g) = a" by (simp add: a_def)
  moreover have "bit ?i1 d = bit (hash key) d" using d_lt by (simp add: IndexOf_mod bit_mod_exp)
  ultimately have "dir ht' ! ?i1 = (if bit (hash key) d then Suc (length (heap ht)) else length (heap ht))"
    using sb(7)[OF i1] by simp
  then show ?thesis
    unfolding old d_def[symmetric] by (auto simp: bucket_at_def[of ht'] sb(6) nth_append)
qed

lemma split_bucket_None_iff:
  "split_bucket hash key ht = None \<longleftrightarrow>
     depth (bucket_at ht (IndexOf hash ht key)) = global_depth ht \<and>
     (2::nat) ^ 31 \<le> 2 * length (dir ht)"
  by (simp add: split_bucket_def Let_def bucket_at_def split: prod.splits)

lemma filter_full_length:
  "length (filter P xs) = length xs \<Longrightarrow> filter P xs = xs"
  by (metis filter_True length_filter_less linorder_neq_iff)

text \<open>
  Termination of the loop. The keys of the target bucket agree with the new key on the
  bits below the local depth; each split that leaves the target full keeps all of them
  and raises the depth, so the loop is left at the first bit where one of them differs.
\<close>

lemma split_while_terminates:
  assumes "ht_inv hash ht"
    and "IsFull (bucket_at ht (IndexOf hash ht key)) \<longrightarrow>
         (\<exists>x \<in> fst ` set (items (bucket_at ht (IndexOf hash ht key))).
            hash x mod 2 ^ 30 \<noteq> hash key mod 2 ^ 30)"
  shows "\<exists>ht'. split_while hash key ht = Some ht'"
  using assms
proof (induction "30 - depth (bucket_at ht (IndexOf hash ht key))" arbitrary: ht rule: less_induct)
  case less
  let ?b = "bucket_at ht (IndexOf hash ht key)"
  show ?case
  proof (cases "IsFull ?b")
    case False
    then show ?thesis by (subst split_while.simps) simp
  next
    case True
    then obtain x where x: "x \<in> fst ` set (items ?b)" and diff: "hash x mod 2 ^ 30 \<noteq> hash key mod 2 ^ 30"
      using less.prems(2) by blast
    have agree: "hash x mod 2 ^ depth ?b = hash key mod 2 ^ depth ?b"
      using less.prems(1) x by (rule keys_agree_on_depth)
    have d30: "depth ?b < 30"
    proof (rule ccontr)
      assume "\<not> depth ?b < 30"
      then have "30 \<le> depth ?b" by simp
      from mod_exp_le[OF this, of "hash x"] mod_exp_le[OF this, of "hash key"] agree
      show False using diff by simp
    qed
    have len: "length (dir ht) = 2 ^ global_depth ht"
      using less.prems(1) by (simp add: ht_inv_def)
    have "\<not> (depth ?b = global_depth ht \<and> (2::nat) ^ 31 \<le> 2 * length (dir ht))"
    proof
      assume "depth ?b = global_depth ht \<and> (2::nat) ^ 31 \<le> 2 * length (dir ht)"
      then have "global_depth ht < 30" and "(2::nat) ^ 31 \<le> 2 ^ Suc (global_depth ht)"
        using d30 len by simp_all
      then show False by (simp only: power_increasing_iff)
    qed
    then have "split_bucket hash key ht \<noteq> None"
      by (simp only: split_bucket_None_iff not_False_eq_True)
    then obtain ht1 where sb: "split_bucket hash key ht = Some ht1"
      by blast
    have inv1: "ht_inv hash ht1" using less.prems(1) True sb by (rule ht_inv_split_bucket)
    note tgt = split_bucket_target[OF less.prems(1) True sb]
    let ?b1 = "bucket_at ht1 (IndexOf hash ht1 key)"
    have asz: "array_size ?b = bucket_size ht"
      using less.prems(1) IndexOf_less[OF less.prems(1), of key] unfolding ht_inv_def by blast
    have still: "x \<in> fst ` set (items ?b1)" if "IsFull ?b1"
    proof -
      have "length (items ?b1) = length (items ?b)"
        using that True asz by (simp add: IsFull_def tgt)
      then have "items ?b1 = items ?b"
        unfolding tgt by (simp add: filter_full_length)
      then show ?thesis using x by simp
    qed
    have "\<exists>ht'. split_while hash key ht1 = Some ht'"
    proof (rule less.hyps[OF _ inv1])
      show "30 - depth ?b1 < 30 - depth ?b" using d30 by (simp add: tgt)
      show "IsFull ?b1 \<longrightarrow> (\<exists>x \<in> fst ` set (items ?b1). hash x mod 2 ^ 30 \<noteq> hash key mod 2 ^ 30)"
        using still diff by blast
    qed
    then show ?thesis using True sb by (subst split_while.simps) simp
  qed
qed

lemma insert_all_reachable:
  "ht_reachable hash ht \<Longrightarrow> insert_all hash kvs ht = Some ht' \<Longrightarrow> ht_reachable hash ht'"
proof (induction kvs arbitrary: ht)
  case Nil
  then show ?case by simp
next
  case (Cons p kvs)
  obtain key val where p: "p = (key, val)" by (cases p)
  from Cons.prems(2) obtain ht1 where ins: "Insert hash key val ht = Some ht1"
    and rest: "insert_all hash kvs ht1 = Some ht'"
    by (auto simp: p bind_eq_Some_conv)
  from Cons.prems(1) ins have "ht_reachable hash ht1" by (rule ht_Insert)
  then show ?case using rest by (rule Cons.IH)
qed

text \<open>
  C9, as amended. In every reachable table with \<open>bucket_size \<ge> 1\<close>, \<open>Insert\<close> returns if the keys of the
  target bucket together with the new key do not all agree on the low 30 bits of their
  hashes: the loop splits on successive bits and leaves at the first bit on which a key of
  the bucket differs from the new key, before the directory outgrows \<open>int\<close>.
\<close>

theorem Insert_terminates:
  assumes "ht_reachable hash ht" and "1 \<le> bucket_size ht"
    and "\<not> agree_on_low_bits hash 30
           (insert key (fst ` set (items (bucket_at ht (IndexOf hash ht key)))))"
  shows "\<exists>ht'. Insert hash key val ht = Some ht'"
proof -
  let ?K = "fst ` set (items (bucket_at ht (IndexOf hash ht key)))"
  from assms(3) obtain x y where "x \<in> insert key ?K" "y \<in> insert key ?K"
      "hash x mod 2 ^ 30 \<noteq> hash y mod 2 ^ 30"
    by (auto simp: agree_on_low_bits_def)
  then have "\<exists>x \<in> ?K. hash x mod 2 ^ 30 \<noteq> hash key mod 2 ^ 30"
    by (metis insertE)
  then have "\<exists>ht1. split_while hash key ht = Some ht1"
    using ht_reachable_inv[OF assms(1)] by (intro split_while_terminates) simp_all
  then show ?thesis by (auto simp: Insert_def)
qed

text \<open>
  C3, as amended. For a key already present whose bucket is not full, \<open>Insert(k, v2)\<close>
  returns, only overwrites the stored value and leaves \<open>GetNumBuckets\<close>, \<open>GetGlobalDepth\<close>
  and the directory as they were. "Only overwrites" is stated on the contents: no bucket is
  allocated, every bucket keeps its depth, its capacity and its keys in their order, the
  items of the bucket of \<open>k\<close> are those before with the value of \<open>k\<close> replaced, the items of
  every other bucket are the same, and \<open>Find\<close> of every other key answers as before.
\<close>

theorem upsert_present_key_not_full:
  assumes "ht_reachable hash ht" and "Find hash key ht \<noteq> None"
    and "\<not> IsFull (bucket_at ht (IndexOf hash ht key))"
  shows "\<exists>ht'. Insert hash key v2 ht = Some ht' \<and>
           GetNumBuckets ht' = GetNumBuckets ht \<and> GetGlobalDepth ht' = GetGlobalDepth ht \<and>
           dir ht' = dir ht \<and> length (heap ht') = length (heap ht) \<and>
           Find hash key ht' = Some v2 \<and>
           bucket_size ht' = bucket_size ht \<and>
           (\<forall>k'. k' \<noteq> key \<longrightarrow> Find hash k' ht' = Find hash k' ht) \<and>
           (\<forall>i < length (dir ht).
              depth (bucket_at ht' i) = depth (bucket_at ht i) \<and>
              array_size (bucket_at ht' i) = array_size (bucket_at ht i) \<and>
              map fst (items (bucket_at ht' i)) = map fst (items (bucket_at ht i)) \<and>
              items (bucket_at ht' i) =
                (if dir ht ! i = dir ht ! IndexOf hash ht key
                 then AList.update key v2 (items (bucket_at ht i))
                 else items (bucket_at ht i)))"
proof -
  let ?i0 = "IndexOf hash ht key"
  let ?a = "dir ht ! ?i0"
  let ?b = "bucket_at ht ?i0"
  let ?ht' = "ht\<lparr>heap := (heap ht)[?a := ?b\<lparr>items := AList.update key v2 (items ?b)\<rparr>]\<rparr>"
  have inv: "ht_inv hash ht" using assms(1) by (rule ht_reachable_inv)
  have present: "map_of (items ?b) key \<noteq> None"
    using assms(2) by (simp add: Find_def Bucket_Find_def)
  then have key_in: "key \<in> fst ` set (items ?b)"
    by (simp add: map_of_eq_None_iff)
  have sw: "split_while hash key ht = Some ht"
    using assms(3) by (subst split_while.simps) simp
  have up: "upsert hash key v2 ht = ?ht'"
    using present by (simp add: upsert_def Let_def bucket_at_def)
  have ins: "Insert hash key v2 ht = Some ?ht'"
    by (simp add: Insert_def sw up)
  have found: "Find hash key ?ht' = Some v2"
    using Find_upsert[OF inv assms(3), of v2] by (simp add: up)
  have alloc: "dir ht ! i < length (heap ht)" if "i < length (dir ht)" for i
    using inv that unfolding ht_inv_def by blast
  have at: "bucket_at ?ht' i =
      (if dir ht ! i = ?a then ?b\<lparr>items := AList.update key v2 (items ?b)\<rparr> else bucket_at ht i)"
    if "i < length (dir ht)" for i
    using alloc[OF that] by (simp add: bucket_at_def nth_list_update)
  have same: "bucket_at ht i = ?b" if "dir ht ! i = ?a" for i
    using that by (simp add: bucket_at_def)
  have idx: "IndexOf hash ?ht' k' = IndexOf hash ht k'" for k'
    by (simp add: IndexOf_def)
  have others: "Find hash k' ?ht' = Find hash k' ht" if "k' \<noteq> key" for k'
    using that at[OF IndexOf_less[OF inv, of k']] same[of "IndexOf hash ht k'"]
    by (simp add: Find_def Bucket_Find_def idx update_conv')
  have slots: "depth (bucket_at ?ht' i) = depth (bucket_at ht i) \<and>
      array_size (bucket_at ?ht' i) = array_size (bucket_at ht i) \<and>
      map fst (items (bucket_at ?ht' i)) = map fst (items (bucket_at ht i)) \<and>
      items (bucket_at ?ht' i) =
        (if dir ht ! i = ?a then AList.update key v2 (items (bucket_at ht i))
         else items (bucket_at ht i))"
    if "i < length (dir ht)" for i
    using at[OF that] same[of i] key_in by (simp add: update_keys)
  have shape: "GetNumBuckets ?ht' = GetNumBuckets ht"
    "GetGlobalDepth ?ht' = GetGlobalDepth ht" "dir ?ht' = dir ht"
    "length (heap ?ht') = length (heap ht)" "bucket_size ?ht' = bucket_size ht"
    by (simp_all add: GetNumBuckets_def GetGlobalDepth_def)
  show ?thesis
  proof (intro exI[of _ ?ht'] conjI allI impI)
    show "Insert hash key v2 ht = Some ?ht'" by (rule ins)
    show "Find hash key ?ht' = Some v2" by (rule found)
    show "Find hash k' ?ht' = Find hash k' ht" if "k' \<noteq> key" for k'
      using that by (rule others)
  qed (use shape slots in blast)+
qed

text \<open>
  When the bucket holding the key is full, the loop splits it before the value is
  overwritten: a call that returns has increased \<open>GetNumBuckets\<close>.
\<close>

lemma upsert_present_key_full:
  assumes "ht_reachable hash ht" and "IsFull (bucket_at ht (IndexOf hash ht key))"
    and "Insert hash key v2 ht = Some ht'"
  shows "GetNumBuckets ht < GetNumBuckets ht' \<and> Find hash key ht' = Some v2"
proof -
  from assms(3) obtain ht1 where sw: "split_while hash key ht = Some ht1"
    and ht': "ht' = upsert hash key v2 ht1"
    by (auto simp: Insert_def)
  from split_while_inv[OF sw ht_reachable_inv[OF assms(1)]] assms(2)
  have "num_buckets ht < num_buckets ht1" by simp
  moreover have "Find hash key ht' = Some v2"
    using split_while_inv[OF sw ht_reachable_inv[OF assms(1)]]
    unfolding ht' by (intro Find_upsert) simp_all
  ultimately show ?thesis
    by (simp add: ht' upsert_def Let_def GetNumBuckets_def)
qed

lemma insert_all_12:
  "insert_all (\<lambda>k. k) [(1, ''a''), (2, ''b'')] (new_ExtendibleHashTable 2) =
     Some \<lparr>global_depth = 0, bucket_size = 2, num_buckets = 1, dir = [0],
           heap = [\<lparr>array_size = 2, depth = 0, items = [(1::nat, ''a''), (2, ''b'')]\<rparr>]\<rparr>"
  by (simp add: ht_eval_defs split_while.simps)

lemma table_12_eq:
  "table_12 = \<lparr>global_depth = 0, bucket_size = 2, num_buckets = 1, dir = [0],
           heap = [\<lparr>array_size = 2, depth = 0, items = [(1, ''a''), (2, ''b'')]\<rparr>]\<rparr>"
  unfolding table_12_def insert_all_12 by simp

lemma table_12_reachable: "ht_reachable (\<lambda>k. k) table_12"
  using insert_all_reachable[OF ht_new insert_all_12] by (simp add: table_12_eq)

lemma Insert_3_table_12:
  "Insert (\<lambda>k. k) 3 ''c'' table_12 =
     Some \<lparr>global_depth = 1, bucket_size = 2, num_buckets = 2, dir = [1, 2],
           heap = [\<lparr>array_size = 2, depth = 1, items = [(1, ''a''), (2, ''b'')]\<rparr>,
                   \<lparr>array_size = 2, depth = 1, items = [(2, ''b'')]\<rparr>,
                   \<lparr>array_size = 2, depth = 1, items = [(1, ''a''), (3, ''c'')]\<rparr>]\<rparr>"
  unfolding table_12_eq by (simp add: ht_eval_defs split_while.simps)

lemma table_123_eq:
  "table_123 = \<lparr>global_depth = 1, bucket_size = 2, num_buckets = 2, dir = [1, 2],
           heap = [\<lparr>array_size = 2, depth = 1, items = [(1, ''a''), (2, ''b'')]\<rparr>,
                   \<lparr>array_size = 2, depth = 1, items = [(2, ''b'')]\<rparr>,
                   \<lparr>array_size = 2, depth = 1, items = [(1, ''a''), (3, ''c'')]\<rparr>]\<rparr>"
  unfolding table_123_def Insert_3_table_12 by simp

lemma table_123_reachable: "ht_reachable (\<lambda>k. k) table_123"
  using ht_Insert[OF table_12_reachable Insert_3_table_12] by (simp add: table_123_eq)

theorem Find_after_Insert_witness:
  "ht_reachable (\<lambda>k. k) table_12 \<and> Insert (\<lambda>k. k) 3 ''c'' table_12 = Some table_123 \<and>
   Find (\<lambda>k. k) 3 table_123 = Some ''c''"
proof -
  have ins: "Insert (\<lambda>k. k) 3 ''c'' table_12 = Some table_123"
    by (simp add: Insert_3_table_12 table_123_eq)
  from Find_after_Insert[OF table_12_reachable ins] table_12_reachable ins
  show ?thesis by simp
qed

theorem directory_size_and_depth_bound_witness:
  "ht_reachable (\<lambda>k. k) table_123 \<and> length (dir table_123) = 2 \<and> GetGlobalDepth table_123 = 1 \<and>
   length (dir table_123) = 2 ^ GetGlobalDepth table_123 \<and>
   GetLocalDepth table_123 0 \<le> GetGlobalDepth table_123 \<and>
   GetLocalDepth table_123 1 \<le> GetGlobalDepth table_123"
proof -
  have "length (dir table_123) = 2" "GetGlobalDepth table_123 = 1"
    by (simp_all add: table_123_eq GetGlobalDepth_def)
  with directory_size_and_depth_bound[OF table_123_reachable] table_123_reachable
  show ?thesis by simp
qed

theorem Insert_terminates_witness:
  "ht_reachable (\<lambda>k. k) table_12 \<and> 1 \<le> bucket_size table_12 \<and>
   \<not> agree_on_low_bits (\<lambda>k. k) 30
       (insert 3 (fst ` set (items (bucket_at table_12 (IndexOf (\<lambda>k. k) table_12 3))))) \<and>
   (\<exists>ht'. Insert (\<lambda>k. k) 3 ''c'' table_12 = Some ht')"
proof -
  have bs: "1 \<le> bucket_size table_12" by (simp add: table_12_eq)
  have np: "\<not> agree_on_low_bits (\<lambda>k. k) 30
       (insert 3 (fst ` set (items (bucket_at table_12 (IndexOf (\<lambda>k. k) table_12 3)))))"
    by (simp add: table_12_eq agree_on_low_bits_def bucket_at_def IndexOf_def)
  from Insert_terminates[OF table_12_reachable bs np, of "''c''"] table_12_reachable bs np
  show ?thesis by blast
qed

text \<open>
  C3 as stated fails. With capacity 2 and keys 1 and 2 in the only bucket, which is full,
  key 1 is present; \<open>Insert(1, "c")\<close> takes \<open>GetNumBuckets\<close> from 1 to 2, \<open>GetGlobalDepth\<close>
  from 0 to 1 and the directory length from 1 to 2 before it overwrites the value.
\<close>

theorem upsert_into_full_bucket_splits:
  "ht_reachable (\<lambda>k. k) table_12 \<and> Find (\<lambda>k. k) 1 table_12 = Some ''a'' \<and>
   (GetNumBuckets table_12, GetGlobalDepth table_12, length (dir table_12)) = (1, 0, 1) \<and>
   map_option (\<lambda>ht'. (GetNumBuckets ht', GetGlobalDepth ht', length (dir ht'), Find (\<lambda>k. k) 1 ht'))
     (Insert (\<lambda>k. k) 1 ''c'' table_12) = Some (2, 1, 2, Some ''c'')"
proof -
  have "Insert (\<lambda>k. k) 1 ''c'' table_12 =
     Some \<lparr>global_depth = 1, bucket_size = 2, num_buckets = 2, dir = [1, 2],
           heap = [\<lparr>array_size = 2, depth = 1, items = [(1, ''a''), (2, ''b'')]\<rparr>,
                   \<lparr>array_size = 2, depth = 1, items = [(2, ''b'')]\<rparr>,
                   \<lparr>array_size = 2, depth = 1, items = [(1, ''c'')]\<rparr>]\<rparr>"
    unfolding table_12_eq by (simp add: ht_eval_defs split_while.simps)
  then show ?thesis
    using table_12_reachable
    by (simp add: table_12_eq GetNumBuckets_def GetGlobalDepth_def Find_def Bucket_Find_def
        bucket_at_def IndexOf_def)
qed

theorem upsert_present_key_not_full_witness:
  "ht_reachable (\<lambda>k. k) table_123 \<and> Find (\<lambda>k. k) 2 table_123 \<noteq> None \<and>
   \<not> IsFull (bucket_at table_123 (IndexOf (\<lambda>k. k) table_123 2)) \<and>
   (\<exists>ht'. Insert (\<lambda>k. k) 2 ''z'' table_123 = Some ht' \<and>
           GetNumBuckets ht' = GetNumBuckets table_123 \<and>
           GetGlobalDepth ht' = GetGlobalDepth table_123 \<and>
           dir ht' = dir table_123 \<and> length (heap ht') = length (heap table_123) \<and>
           Find (\<lambda>k. k) 2 ht' = Some ''z'' \<and>
           bucket_size ht' = bucket_size table_123 \<and>
           Find (\<lambda>k. k) 1 ht' = Find (\<lambda>k. k) 1 table_123 \<and>
           Find (\<lambda>k. k) 3 ht' = Find (\<lambda>k. k) 3 table_123 \<and>
           items (bucket_at ht' 0) = AList.update 2 ''z'' (items (bucket_at table_123 0)) \<and>
           items (bucket_at ht' 1) = items (bucket_at table_123 1))"
proof -
  have f: "Find (\<lambda>k. k) 2 table_123 \<noteq> None"
    and nf: "\<not> IsFull (bucket_at table_123 (IndexOf (\<lambda>k. k) table_123 2))"
    by (simp_all add: table_123_eq Find_def Bucket_Find_def bucket_at_def IndexOf_def IsFull_def)
  have len: "(0::nat) < length (dir table_123)" "(1::nat) < length (dir table_123)"
    and d0: "dir table_123 ! 0 = dir table_123 ! IndexOf (\<lambda>k. k) table_123 2"
    and d1: "dir table_123 ! 1 \<noteq> dir table_123 ! IndexOf (\<lambda>k. k) table_123 2"
    by (simp_all add: table_123_eq IndexOf_def)
  from upsert_present_key_not_full[OF table_123_reachable f nf, of "''z''"]
  obtain ht' where h: "Insert (\<lambda>k. k) 2 ''z'' table_123 = Some ht'"
      "GetNumBuckets ht' = GetNumBuckets table_123"
      "GetGlobalDepth ht' = GetGlobalDepth table_123"
      "dir ht' = dir table_123" "length (heap ht') = length (heap table_123)"
      "Find (\<lambda>k. k) 2 ht' = Some ''z''" "bucket_size ht' = bucket_size table_123"
      "\<forall>k'. k' \<noteq> 2 \<longrightarrow> Find (\<lambda>k. k) k' ht' = Find (\<lambda>k. k) k' table_123"
      "\<forall>i < length (dir table_123).
          depth (bucket_at ht' i) = depth (bucket_at table_123 i) \<and>
          array_size (bucket_at ht' i) = array_size (bucket_at table_123 i) \<and>
          map fst (items (bucket_at ht' i)) = map fst (items (bucket_at table_123 i)) \<and>
          items (bucket_at ht' i) =
            (if dir table_123 ! i = dir table_123 ! IndexOf (\<lambda>k. k) table_123 2
             then AList.update 2 ''z'' (items (bucket_at table_123 i))
             else items (bucket_at table_123 i))"
    by blast
  have "Find (\<lambda>k. k) 1 ht' = Find (\<lambda>k. k) 1 table_123"
    and "Find (\<lambda>k. k) 3 ht' = Find (\<lambda>k. k) 3 table_123"
    using h(8) by simp_all
  moreover have "items (bucket_at ht' 0) = AList.update 2 ''z'' (items (bucket_at table_123 0))"
    using h(9) len(1) d0 by simp
  moreover have "items (bucket_at ht' 1) = items (bucket_at table_123 1)"
    using h(9) len(2) d1 by simp
  ultimately show ?thesis
    using table_123_reachable f nf h(1-7) by blast
qed

text \<open>
  The converse: from a full target bucket whose keys all agree with the new key on the
  low 30 bits of the hash, the loop never returns. Every split leaves all the items on
  the side of the key, until the directory cannot be doubled any more.
\<close>

lemma split_while_pathological:
  assumes "split_while hash key ht = Some ht'" and "ht_inv hash ht"
    and "IsFull (bucket_at ht (IndexOf hash ht key))"
    and "\<forall>x \<in> fst ` set (items (bucket_at ht (IndexOf hash ht key))).
           hash x mod 2 ^ 30 = hash key mod 2 ^ 30"
  shows False
proof -
  let ?P = "\<lambda>hash key ht ht'.
     ht_inv hash ht \<and> IsFull (bucket_at ht (IndexOf hash ht key)) \<and>
     (\<forall>x \<in> fst ` set (items (bucket_at ht (IndexOf hash ht key))).
        hash x mod 2 ^ 30 = hash key mod 2 ^ 30) \<longrightarrow>
     IsFull (bucket_at ht' (IndexOf hash ht' key))"
  have step: "?P hash key ht y"
    if IH: "\<And>hash key ht y. loop hash key ht = Some y \<Longrightarrow> ?P hash key ht y"
      and eq: "(if IsFull (bucket_at ht (IndexOf hash ht key))
                then Option.bind (split_bucket hash key ht) (loop hash key)
                else Some ht) = Some y"
    for loop hash key ht y
  proof
    let ?b = "bucket_at ht (IndexOf hash ht key)"
    assume "ht_inv hash ht \<and> IsFull ?b \<and>
      (\<forall>x \<in> fst ` set (items ?b). hash x mod 2 ^ 30 = hash key mod 2 ^ 30)"
    then have inv: "ht_inv hash ht" and full: "IsFull ?b"
      and agree: "\<forall>x \<in> fst ` set (items ?b). hash x mod 2 ^ 30 = hash key mod 2 ^ 30"
      by simp_all
    from full eq obtain ht1 where sb: "split_bucket hash key ht = Some ht1"
      and l: "loop hash key ht1 = Some y"
      by (auto simp: bind_eq_Some_conv)
    have len: "length (dir ht) = 2 ^ global_depth ht" and g30: "global_depth ht \<le> 30"
      and d_le: "depth ?b \<le> global_depth ht" and asz: "array_size ?b = bucket_size ht"
      using inv IndexOf_less[OF inv, of key] unfolding ht_inv_def by blast+
    have nover: "\<not> (depth ?b = global_depth ht \<and> (2::nat) ^ 31 \<le> 2 * length (dir ht))"
      using sb split_bucket_None_iff[of hash key ht] by (cases "split_bucket hash key ht") simp_all
    have "depth ?b \<noteq> 30"
    proof
      assume d: "depth ?b = 30"
      then have g: "global_depth ht = 30" using d_le g30 by simp
      then have "length (dir ht) = 2 ^ 30" using len by simp
      then show False using nover d g by simp
    qed
    then have d30: "depth ?b < 30" using d_le g30 by simp
    have bits: "bit (hash (fst p)) (depth ?b) = bit (hash key) (depth ?b)" if "p \<in> set (items ?b)" for p
    proof -
      have "fst p \<in> fst ` set (items ?b)" using that by (rule imageI)
      then have "hash (fst p) mod 2 ^ 30 = hash key mod 2 ^ 30" using agree by blast
      then have "take_bit 30 (hash (fst p)) = take_bit 30 (hash key)"
        by (simp only: take_bit_eq_mod)
      then have "\<forall>n<30. bit (hash (fst p)) n = bit (hash key) n"
        by (simp only: take_bit_eq_iff_bits)
      then show ?thesis using d30 by blast
    qed
    note tgt = split_bucket_target[OF inv full sb]
    let ?b1 = "bucket_at ht1 (IndexOf hash ht1 key)"
    have items1: "items ?b1 = items ?b"
      unfolding tgt using bits by (simp add: filter_id_conv)
    then have "IsFull ?b1" using full asz by (simp add: IsFull_def tgt)
    moreover have "ht_inv hash ht1" using inv full sb by (rule ht_inv_split_bucket)
    ultimately show "IsFull (bucket_at y (IndexOf hash y key))"
      using IH[OF l] agree items1 by simp
  qed
  have "?P hash key ht ht'"
  proof (rule split_while.raw_induct[where P = ?P])
    show "split_while hash key ht = Some ht'" by (rule assms(1))
  next
    fix loop hash key ht y
    assume "\<And>hash key ht y. loop hash key ht = Some y \<Longrightarrow> ?P hash key ht y"
      and "(if IsFull (bucket_at ht (IndexOf hash ht key))
                then Option.bind (split_bucket hash key ht) (loop hash key)
                else Some ht) = Some y"
    then show "?P hash key ht y" by (rule step)
  qed
  with assms(2-4) have "IsFull (bucket_at ht' (IndexOf hash ht' key))" by blast
  then show False using split_while_inv[OF assms(1,2)] by simp
qed

text \<open>
  So \<open>Insert\<close> does not return when the target bucket is full and its keys agree with the
  new key on the low 30 hash bits; this covers \<open>bucket_size = 0\<close> and the insertion of a key
  that is the only key of a full bucket.
\<close>

lemma Insert_pathological:
  assumes "ht_reachable hash ht" and "IsFull (bucket_at ht (IndexOf hash ht key))"
    and "agree_on_low_bits hash 30
           (insert key (fst ` set (items (bucket_at ht (IndexOf hash ht key)))))"
  shows "Insert hash key val ht = None"
proof (rule ccontr)
  assume "Insert hash key val ht \<noteq> None"
  then obtain ht1 where sw: "split_while hash key ht = Some ht1"
    by (auto simp: Insert_def)
  have agree: "\<forall>x \<in> fst ` set (items (bucket_at ht (IndexOf hash ht key))).
           hash x mod 2 ^ 30 = hash key mod 2 ^ 30"
    using assms(3) unfolding agree_on_low_bits_def by blast
  from split_while_pathological[OF sw ht_reachable_inv[OF assms(1)] assms(2) agree]
  show False .
qed

text \<open>With capacity 1, \<open>Insert(7, "a")\<close> returns and \<open>Insert(7, "b")\<close> after it does not.\<close>

lemma upsert_capacity_one_never_returns:
  "Insert (\<lambda>k. k) (7::nat) ''a'' (new_ExtendibleHashTable 1) =
     Some \<lparr>global_depth = 0, bucket_size = 1, num_buckets = 1, dir = [0],
           heap = [\<lparr>array_size = 1, depth = 0, items = [(7, ''a'')]\<rparr>]\<rparr> \<and>
   Insert (\<lambda>k. k) (7::nat) ''b''
     \<lparr>global_depth = 0, bucket_size = 1, num_buckets = 1, dir = [0],
      heap = [\<lparr>array_size = 1, depth = 0, items = [(7, ''a'')]\<rparr>]\<rparr> = None"
proof -
  let ?t = "\<lparr>global_depth = 0, bucket_size = 1, num_buckets = 1, dir = [0],
      heap = [\<lparr>array_size = 1, depth = 0, items = [(7::nat, ''a'')]\<rparr>]\<rparr>"
  have ins: "Insert (\<lambda>k. k) (7::nat) ''a'' (new_ExtendibleHashTable 1) = Some ?t"
    by (simp add: ht_eval_defs split_while.simps)
  have r: "ht_reachable (\<lambda>k. k) ?t" using ht_Insert[OF ht_new ins] .
  have "Insert (\<lambda>k. k) 7 ''b'' ?t = None"
    by (rule Insert_pathological[OF r])
       (simp_all add: IsFull_def bucket_at_def IndexOf_def agree_on_low_bits_def)
  with ins show ?thesis by simp
qed

text \<open>
  C9 as stated fails. With capacity 1 and the identity hash, the table holding key 0 is
  reachable; the keys 0 and \<open>2^30\<close> differ in bit 30 of their hashes, so they do not agree
  on arbitrarily many low-order bits, yet \<open>Insert(2^30, "b")\<close> does not return: the two keys
  agree on the low 30 bits, the loop doubles the directory 30 times without separating
  them, and the next doubling computes \<open>dir_num * 2\<close> in \<open>int\<close> at \<open>2^30\<close> slots and
  needs \<open>2^31\<close>.
\<close>

theorem Insert_overflows_directory:
  "ht_reachable (\<lambda>k. k)
     \<lparr>global_depth = 0, bucket_size = 1, num_buckets = 1, dir = [0],
      heap = [\<lparr>array_size = 1, depth = 0, items = [(0::nat, ''a'')]\<rparr>]\<rparr> \<and>
   1 \<le> bucket_size
     \<lparr>global_depth = 0, bucket_size = 1, num_buckets = 1, dir = [0],
      heap = [\<lparr>array_size = 1, depth = 0, items = [(0::nat, ''a'')]\<rparr>]\<rparr> \<and>
   (0::nat) mod 2 ^ 31 \<noteq> 1073741824 mod 2 ^ 31 \<and>
   \<not> agree_on_low_bits (\<lambda>k. k) 31 {1073741824, 0::nat} \<and>
   Insert (\<lambda>k. k) 1073741824 ''b''
     \<lparr>global_depth = 0, bucket_size = 1, num_buckets = 1, dir = [0],
      heap = [\<lparr>array_size = 1, depth = 0, items = [(0::nat, ''a'')]\<rparr>]\<rparr> = None"
proof -
  let ?t = "\<lparr>global_depth = 0, bucket_size = 1, num_buckets = 1, dir = [0],
      heap = [\<lparr>array_size = 1, depth = 0, items = [(0::nat, ''a'')]\<rparr>]\<rparr>"
  have ins: "Insert (\<lambda>k. k) (0::nat) ''a'' (new_ExtendibleHashTable 1) = Some ?t"
    by (simp add: ht_eval_defs split_while.simps)
  have r: "ht_reachable (\<lambda>k. k) ?t" using ht_Insert[OF ht_new ins] .
  have none: "Insert (\<lambda>k. k) 1073741824 ''b'' ?t = None"
    by (rule Insert_pathological[OF r])
       (simp_all add: IsFull_def bucket_at_def IndexOf_def agree_on_low_bits_def)
  have differ: "(0::nat) mod 2 ^ 31 \<noteq> 1073741824 mod 2 ^ 31" by simp
  have "\<not> agree_on_low_bits (\<lambda>k. k) 31 {1073741824, 0::nat}"
    by (simp add: agree_on_low_bits_def)
  with r none differ show ?thesis by simp
qed

end
